theory Spec2Isabelle
  imports Main "HOL-Library.Sublist"
begin

section \<open>Python strings and the Unicode tables\<close>

text \<open>
  A Python \<open>str\<close> is a sequence of Unicode code points, and \<open>len\<close> counts code points.
  A string is therefore modelled as a list of code points (naturals); \<open>ustr\<close> turns an
  ASCII literal of the sources into such a list.
\<close>

type_synonym codepoint = nat
type_synonym pystr = "codepoint list"

definition ustr :: "string \<Rightarrow> pystr" where
  "ustr s = map of_char s"

text \<open>
  The helpers of the test suite call the interpreter's character methods
  (\<open>str.isspace\<close>, \<open>str.isalpha\<close>, \<open>str.isdigit\<close>, \<open>str.lower\<close>,
  \<open>str.upper\<close>, \<open>str.casefold\<close>), \<open>int\<close> and the \<open>re\<close> module. What these
  return for one character is fixed by the interpreter's Unicode database, which is not
  part of the repository. The database is a parameter \<open>U\<close> of every function below, so
  that a theorem stated for every \<open>U\<close> holds for whatever Unicode version the interpreter
  ships.

  \<^item> \<open>isspace U c\<close>: \<open>c.isspace()\<close>; also what \<open>str.strip()\<close> removes and what the
    regular expression \<open>\s\<close> matches.
  \<^item> \<open>isalpha U c\<close>, \<open>isdigit U c\<close>: \<open>c.isalpha()\<close>, \<open>c.isdigit()\<close>.
  \<^item> \<open>decimal U c\<close>: the value of \<open>c\<close> as a decimal digit (\<open>c.isdecimal()\<close>), what the
    regular expression \<open>\d\<close> matches and what \<open>int\<close> reads.
  \<^item> \<open>lower U c\<close>, \<open>upper U c\<close>, \<open>casefold U c\<close>: the strings \<open>c.lower()\<close>,
    \<open>c.upper()\<close>, \<open>c.casefold()\<close>; they can be longer than one character.
  \<^item> \<open>ci_eq U p c\<close>: whether the ASCII letter \<open>p\<close> of a pattern matches the character
    \<open>c\<close> under \<open>re.IGNORECASE\<close>.
\<close>

record unicode_db =
  isspace :: "codepoint \<Rightarrow> bool"
  isalpha :: "codepoint \<Rightarrow> bool"
  isdigit :: "codepoint \<Rightarrow> bool"
  decimal :: "codepoint \<Rightarrow> nat option"
  lower :: "codepoint \<Rightarrow> pystr"
  upper :: "codepoint \<Rightarrow> pystr"
  casefold :: "codepoint \<Rightarrow> pystr"
  ci_eq :: "codepoint \<Rightarrow> codepoint \<Rightarrow> bool"

text \<open>
  \<open>latin1\<close> is CPython's database on the code points U+0000 to U+00FF. The concrete
  evaluations below use it, on inputs within that block only; every other code point is
  left caseless and in no class, which is not what Python does there.
\<close>

definition latin1_isspace :: "codepoint \<Rightarrow> bool" where
  "latin1_isspace c = ((9 \<le> c \<and> c \<le> 13) \<or> (28 \<le> c \<and> c \<le> 32) \<or> c = 133 \<or> c = 160)"

definition latin1_isalpha :: "codepoint \<Rightarrow> bool" where
  "latin1_isalpha c =
     ((65 \<le> c \<and> c \<le> 90) \<or> (97 \<le> c \<and> c \<le> 122) \<or> c = 170 \<or> c = 181 \<or> c = 186 \<or>
      (192 \<le> c \<and> c \<le> 214) \<or> (216 \<le> c \<and> c \<le> 246) \<or> (248 \<le> c \<and> c \<le> 255))"

definition latin1_isdigit :: "codepoint \<Rightarrow> bool" where
  "latin1_isdigit c = ((48 \<le> c \<and> c \<le> 57) \<or> c = 178 \<or> c = 179 \<or> c = 185)"

definition latin1_decimal :: "codepoint \<Rightarrow> nat option" where
  "latin1_decimal c = (if 48 \<le> c \<and> c \<le> 57 then Some (c - 48) else None)"

definition latin1_lower :: "codepoint \<Rightarrow> pystr" where
  "latin1_lower c =
     (if (65 \<le> c \<and> c \<le> 90) \<or> (192 \<le> c \<and> c \<le> 214) \<or> (216 \<le> c \<and> c \<le> 222)
      then [c + 32] else [c])"

definition latin1_upper :: "codepoint \<Rightarrow> pystr" where
  "latin1_upper c =
     (if (97 \<le> c \<and> c \<le> 122) \<or> (224 \<le> c \<and> c \<le> 246) \<or> (248 \<le> c \<and> c \<le> 254)
      then [c - 32]
      else if c = 181 then [924]
      else if c = 223 then [83, 83]
      else if c = 255 then [376]
      else [c])"

definition latin1_casefold :: "codepoint \<Rightarrow> pystr" where
  "latin1_casefold c =
     (if c = 181 then [956] else if c = 223 then [115, 115] else latin1_lower c)"

definition latin1_ci_eq :: "codepoint \<Rightarrow> codepoint \<Rightarrow> bool" where
  "latin1_ci_eq p c =
     (c = p \<or> (97 \<le> p \<and> p \<le> 122 \<and> c + 32 = p) \<or> (65 \<le> p \<and> p \<le> 90 \<and> c = p + 32))"

definition latin1 :: unicode_db where
  "latin1 = \<lparr> isspace = latin1_isspace, isalpha = latin1_isalpha, isdigit = latin1_isdigit,
              decimal = latin1_decimal, lower = latin1_lower, upper = latin1_upper,
              casefold = latin1_casefold, ci_eq = latin1_ci_eq \<rparr>"

text \<open>
  \<open>with_dotless_i\<close> is \<open>latin1\<close> together with the character U+0131 (the small
  dotless i), as CPython has it: it is alphabetic, \<open>upper()\<close> gives \<open>I\<close>, and
  \<open>lower()\<close> and \<open>casefold()\<close> leave it as it is.
\<close>

definition with_dotless_i :: unicode_db where
  "with_dotless_i =
     latin1 \<lparr> isalpha := (\<lambda>c. c = 305 \<or> latin1_isalpha c),
              upper := (\<lambda>c. if c = 305 then [73] else latin1_upper c) \<rparr>"

text \<open>\<open>c.isdecimal()\<close>: the character is a decimal digit.\<close>

definition isdecimal :: "unicode_db \<Rightarrow> codepoint \<Rightarrow> bool" where
  "isdecimal U c = (decimal U c \<noteq> None)"

text \<open>\<open>s.strip()\<close>: leading and trailing whitespace removed.\<close>

definition strip :: "unicode_db \<Rightarrow> pystr \<Rightarrow> pystr" where
  "strip U s = rev (dropWhile (isspace U) (rev (dropWhile (isspace U) s)))"

text \<open>\<open>s.casefold()\<close> folds every character on its own.\<close>

definition str_casefold :: "unicode_db \<Rightarrow> pystr \<Rightarrow> pystr" where
  "str_casefold U s = concat (map (casefold U) s)"

text \<open>
  The slice \<open>s[:n]\<close> for an \<open>int\<close> \<open>n\<close>: a negative \<open>n\<close> counts from the end, and the
  slice never raises.
\<close>

definition slice_to :: "pystr \<Rightarrow> int \<Rightarrow> pystr" where
  "slice_to s n = (if 0 \<le> n then take (nat n) s else take (nat (int (length s) + n)) s)"

section \<open>build_alternating_case_prefix\<close>

text \<open>
  \<open>build_alternating_case_prefix(base, length)\<close> is defined three times, in
  \<open>test_rsp_model_field.py\<close>, \<open>test_rsp_manufacturer_field.py\<close> and
  \<open>test_rsp_source_id_field.py\<close>. Each copy is translated on its own. The loop
  \<open>for ch in prefix\<close> carries \<open>result_chars\<close> (a list of strings) and \<open>alpha_index\<close>;
  the call of \<open>_log\<close> only prints and is left out.
\<close>

fun alternate_model :: "unicode_db \<Rightarrow> pystr \<Rightarrow> pystr list \<Rightarrow> nat \<Rightarrow> pystr list" where
  "alternate_model U [] result_chars alpha_index = result_chars"
| "alternate_model U (ch # rest) result_chars alpha_index =
     (if isalpha U ch then
        (if alpha_index mod 2 = 0
         then alternate_model U rest (result_chars @ [lower U ch]) (alpha_index + 1)
         else alternate_model U rest (result_chars @ [upper U ch]) (alpha_index + 1))
      else alternate_model U rest (result_chars @ [[ch]]) alpha_index)"

definition build_alternating_case_prefix :: "unicode_db \<Rightarrow> pystr \<Rightarrow> int \<Rightarrow> pystr" where
  "build_alternating_case_prefix U base n =
     (let prefix = slice_to base n in concat (alternate_model U prefix [] 0))"

fun alternate_manufacturer :: "unicode_db \<Rightarrow> pystr \<Rightarrow> pystr list \<Rightarrow> nat \<Rightarrow> pystr list" where
  "alternate_manufacturer U [] result_chars alpha_index = result_chars"
| "alternate_manufacturer U (ch # rest) result_chars alpha_index =
     (if isalpha U ch then
        (if alpha_index mod 2 = 0
         then alternate_manufacturer U rest (result_chars @ [lower U ch]) (alpha_index + 1)
         else alternate_manufacturer U rest (result_chars @ [upper U ch]) (alpha_index + 1))
      else alternate_manufacturer U rest (result_chars @ [[ch]]) alpha_index)"

definition build_alternating_case_prefix_manufacturer ::
  "unicode_db \<Rightarrow> pystr \<Rightarrow> int \<Rightarrow> pystr" where
  "build_alternating_case_prefix_manufacturer U base n =
     (let prefix = slice_to base n in concat (alternate_manufacturer U prefix [] 0))"

fun alternate_source_id :: "unicode_db \<Rightarrow> pystr \<Rightarrow> pystr list \<Rightarrow> nat \<Rightarrow> pystr list" where
  "alternate_source_id U [] result_chars alpha_index = result_chars"
| "alternate_source_id U (ch # rest) result_chars alpha_index =
     (if isalpha U ch then
        (if alpha_index mod 2 = 0
         then alternate_source_id U rest (result_chars @ [lower U ch]) (alpha_index + 1)
         else alternate_source_id U rest (result_chars @ [upper U ch]) (alpha_index + 1))
      else alternate_source_id U rest (result_chars @ [[ch]]) alpha_index)"

definition build_alternating_case_prefix_source_id ::
  "unicode_db \<Rightarrow> pystr \<Rightarrow> int \<Rightarrow> pystr" where
  "build_alternating_case_prefix_source_id U base n =
     (let prefix = slice_to base n in concat (alternate_source_id U prefix [] 0))"

text \<open>
  What the loop does to the character at index \<open>i\<close> of \<open>base\<close>: \<open>alpha_rank\<close> is the
  number of alphabetic characters before it, the value of \<open>alpha_index\<close> when the loop
  reaches it.
\<close>

definition alpha_rank :: "unicode_db \<Rightarrow> pystr \<Rightarrow> nat \<Rightarrow> nat" where
  "alpha_rank U base i = length (filter (isalpha U) (take i base))"

definition image_at :: "unicode_db \<Rightarrow> pystr \<Rightarrow> nat \<Rightarrow> pystr" where
  "image_at U base i =
     (if isalpha U (base ! i)
      then (if even (alpha_rank U base i) then lower U (base ! i) else upper U (base ! i))
      else [base ! i])"

section \<open>Exceptions, \<open>int\<close> and substring search\<close>

text \<open>
  Every \<open>raise\<close> and every failing \<open>assert\<close> of the sources is a branch of the model:
  a function that can raise returns \<open>error + 'a\<close>, with \<open>Inl\<close> for the exception.
  \<open>PyException\<close> is a plain \<open>raise Exception(...)\<close>.
\<close>

datatype error = AssertionError | ValueError | TypeError | KeyError | PyException

text \<open>
  \<open>int(s)\<close> for a string, as CPython reads it. Whitespace around the number is
  ignored: of the ASCII characters these are the tab to the carriage return and the
  space (not U+001C to U+001F, which \<open>str.strip\<close> removes), and beyond ASCII the
  whitespace characters of the database. One sign may come first, and the rest is
  decimal digits of any script, with single underscores allowed between digits.
  Anything else raises \<open>ValueError\<close> (\<open>None\<close> here), and so does a number of more
  than \<open>max_str_digits\<close> digits: 4300 is the interpreter's default limit
  (\<open>sys.int_info.default_max_str_digits\<close>), which the test suite does not change.
\<close>

definition int_space :: "unicode_db \<Rightarrow> codepoint \<Rightarrow> bool" where
  "int_space U c = (if c < 127 then (9 \<le> c \<and> c \<le> 13) \<or> c = 32 else isspace U c)"

definition int_strip :: "unicode_db \<Rightarrow> pystr \<Rightarrow> pystr" where
  "int_strip U s = rev (dropWhile (int_space U) (rev (dropWhile (int_space U) s)))"

definition max_str_digits :: nat where
  "max_str_digits = 4300"

fun parse_digits :: "unicode_db \<Rightarrow> pystr \<Rightarrow> nat \<Rightarrow> bool \<Rightarrow> nat option" where
  "parse_digits U [] acc after_digit = (if after_digit then Some acc else None)"
| "parse_digits U (c # cs) acc after_digit =
     (case decimal U c of
        Some d \<Rightarrow> parse_digits U cs (10 * acc + d) True
      | None \<Rightarrow> if c = 95 \<and> after_digit then parse_digits U cs acc False else None)"

definition int_digits :: "unicode_db \<Rightarrow> pystr \<Rightarrow> nat option" where
  "int_digits U ds =
     (case parse_digits U ds 0 False of
        None \<Rightarrow> None
      | Some n \<Rightarrow> if max_str_digits < length (filter (isdecimal U) ds) then None else Some n)"

definition py_int :: "unicode_db \<Rightarrow> pystr \<Rightarrow> int option" where
  "py_int U s =
     (case int_strip U s of
        [] \<Rightarrow> None
      | c # cs \<Rightarrow>
          if c = 43 then map_option int (int_digits U cs)
          else if c = 45 then map_option (\<lambda>n. - int n) (int_digits U cs)
          else map_option int (int_digits U (c # cs)))"

text \<open>\<open>s.isdigit()\<close>: at least one character, and all of them digits.\<close>

definition str_isdigit :: "unicode_db \<Rightarrow> pystr \<Rightarrow> bool" where
  "str_isdigit U s = (s \<noteq> [] \<and> list_all (isdigit U) s)"

text \<open>\<open>sub in s\<close>: \<open>sub\<close> occurs in \<open>s\<close> at some offset.\<close>

fun py_in :: "pystr \<Rightarrow> pystr \<Rightarrow> bool" where
  "py_in sub [] = (sub = [])"
| "py_in sub (c # cs) = (prefix sub (c # cs) \<or> py_in sub cs)"

text \<open>\<open>s.endswith(t)\<close> and \<open>s.startswith(t)\<close>.\<close>

definition endswith :: "pystr \<Rightarrow> pystr \<Rightarrow> bool" where
  "endswith s t = suffix t s"

definition startswith :: "pystr \<Rightarrow> pystr \<Rightarrow> bool" where
  "startswith s t = prefix t s"

text \<open>
  \<open>s.replace(old, '')\<close> for a non-empty \<open>old\<close>: every occurrence found scanning from the
  left is removed, and the scan goes on after it.
\<close>

function remove_all :: "pystr \<Rightarrow> pystr \<Rightarrow> pystr" where
  "remove_all old [] = []"
| "remove_all old (c # cs) =
     (if old \<noteq> [] \<and> prefix old (c # cs) then remove_all old (drop (length old) (c # cs))
      else c # remove_all old cs)"
  by pat_completeness auto
termination
  by (relation "measure (\<lambda>(old, s). length s)") (auto simp: neq_Nil_conv)

section \<open>Regular expressions\<close>

text \<open>
  The \<open>re\<close> module is a backtracking matcher. The patterns of the sources and of
  \<open>strptime\<close> use literals, the classes \<open>\s\<close> and \<open>\d\<close>, ranges, \<open>+\<close> on a class,
  alternation and groups. \<open>branches U r (s, g)\<close> lists every way \<open>r\<close> can match at the
  start of \<open>s\<close>, in the order in which the matcher tries them (the first alternative
  first, the longest repetition first), each with the rest of the subject and the groups
  captured so far; the matcher itself returns the first one.
\<close>

datatype atom = Lit codepoint | LitI codepoint | Space | Digit | Range codepoint codepoint

fun atom_matches :: "unicode_db \<Rightarrow> atom \<Rightarrow> codepoint \<Rightarrow> bool" where
  "atom_matches U (Lit p) c = (c = p)"
| "atom_matches U (LitI p) c = ci_eq U p c"
| "atom_matches U Space c = isspace U c"
| "atom_matches U Digit c = isdecimal U c"
| "atom_matches U (Range a b) c = (a \<le> c \<and> c \<le> b)"

datatype regex =
    Eps
  | Atom atom
  | Seq regex regex
  | Alt regex regex
  | OneOrMore atom
  | Group string regex

type_synonym groups = "(string \<times> pystr) list"
type_synonym mstate = "pystr \<times> groups"

fun branches :: "unicode_db \<Rightarrow> regex \<Rightarrow> mstate \<Rightarrow> mstate list" where
  "branches U Eps st = [st]"
| "branches U (Atom a) (s, g) =
     (case s of [] \<Rightarrow> [] | c # cs \<Rightarrow> if atom_matches U a c then [(cs, g)] else [])"
| "branches U (Seq r1 r2) st = concat (map (branches U r2) (branches U r1 st))"
| "branches U (Alt r1 r2) st = branches U r1 st @ branches U r2 st"
| "branches U (OneOrMore a) (s, g) =
     map (\<lambda>k. (drop k s, g)) (rev [1..<Suc (length (takeWhile (atom_matches U a) s))])"
| "branches U (Group name r) (s, g) =
     map (\<lambda>(s', g'). (s', (name, take (length s - length s') s) # g')) (branches U r (s, g))"

text \<open>
  \<open>re.match\<close>: the first branch at the start of the subject, as the rest of the subject
  and the groups. \<open>re.search\<close>: the first start offset, from the left, where the
  pattern matches.
\<close>

definition re_match :: "unicode_db \<Rightarrow> regex \<Rightarrow> pystr \<Rightarrow> mstate option" where
  "re_match U r s = (case branches U r (s, []) of [] \<Rightarrow> None | st # _ \<Rightarrow> Some st)"

fun re_search :: "unicode_db \<Rightarrow> regex \<Rightarrow> pystr \<Rightarrow> mstate option" where
  "re_search U r [] = re_match U r []"
| "re_search U r (c # cs) =
     (case re_match U r (c # cs) of None \<Rightarrow> re_search U r cs | Some st \<Rightarrow> Some st)"

text \<open>A literal string as a pattern, each character matched as it is.\<close>

definition literal :: "string \<Rightarrow> regex" where
  "literal s = foldr (\<lambda>c r. Seq (Atom (Lit (of_char c))) r) s Eps"

section \<open>get_total_record_count\<close>

text \<open>
  \<open>test_rsp_model_field.py\<close>, lines 32 to 50. The argument is what
  \<open>total_p.inner_text()\<close> returned. \<open>match.group(1)\<close> is the text of the group.
\<close>

definition total_record_count_re :: regex where
  "total_record_count_re =
     Seq (literal ''Total Record Count'') (Seq (OneOrMore Space) (Group ''1'' (OneOrMore Digit)))"

definition get_total_record_count :: "unicode_db \<Rightarrow> pystr \<Rightarrow> error + int" where
  "get_total_record_count U p_text =
     (let text = strip U p_text in
      case re_search U total_record_count_re text of
        None \<Rightarrow> Inl AssertionError
      | Some (rest, g) \<Rightarrow>
          (case map_of g ''1'' of
             None \<Rightarrow> Inl TypeError
           | Some digits \<Rightarrow>
               (case py_int U digits of None \<Rightarrow> Inl ValueError | Some count \<Rightarrow> Inr count)))"

text \<open>
  \<open>test_rsp_invoice_date_field.py\<close>, lines 33 to 50: the same statements.
\<close>

definition get_total_record_count_invoice_date :: "unicode_db \<Rightarrow> pystr \<Rightarrow> error + int" where
  "get_total_record_count_invoice_date U p_text =
     (let text = strip U p_text in
      case re_search U total_record_count_re text of
        None \<Rightarrow> Inl AssertionError
      | Some (rest, g) \<Rightarrow>
          (case map_of g ''1'' of
             None \<Rightarrow> Inl TypeError
           | Some digits \<Rightarrow>
               (case py_int U digits of None \<Rightarrow> Inl ValueError | Some count \<Rightarrow> Inr count)))"

section \<open>datetime.date and datetime.strptime\<close>

text \<open>
  A \<open>datetime.date\<close> is a year, a month and a day; its constructor raises \<open>ValueError\<close>
  unless the year is between 1 and 9999 and the day exists in the month.
  \<open>isoformat\<close> writes a valid date as \<open>YYYY-MM-DD\<close>, zero-padded.
\<close>

record pydate =
  year :: int
  month :: int
  day :: int

definition is_leap :: "int \<Rightarrow> bool" where
  "is_leap y = (y mod 4 = 0 \<and> (y mod 100 \<noteq> 0 \<or> y mod 400 = 0))"

definition days_in_month :: "int \<Rightarrow> int \<Rightarrow> int" where
  "days_in_month y m =
     (if m = 2 then (if is_leap y then 29 else 28)
      else if m = 4 \<or> m = 6 \<or> m = 9 \<or> m = 11 then 30 else 31)"

definition valid_date :: "pydate \<Rightarrow> bool" where
  "valid_date d =
     (1 \<le> year d \<and> year d \<le> 9999 \<and> 1 \<le> month d \<and> month d \<le> 12 \<and>
      1 \<le> day d \<and> day d \<le> days_in_month (year d) (month d))"

definition digit_char :: "int \<Rightarrow> codepoint" where
  "digit_char d = 48 + nat d"

definition zfill2 :: "int \<Rightarrow> pystr" where
  "zfill2 n = [digit_char (n div 10), digit_char (n mod 10)]"

definition zfill4 :: "int \<Rightarrow> pystr" where
  "zfill4 n =
     [digit_char (n div 1000), digit_char (n div 100 mod 10),
      digit_char (n div 10 mod 10), digit_char (n mod 10)]"

definition isoformat :: "pydate \<Rightarrow> pystr" where
  "isoformat d = zfill4 (year d) @ [45] @ zfill2 (month d) @ [45] @ zfill2 (day d)"

text \<open>
  \<open>datetime.strptime(data_string, format)\<close> as CPython's \<open>_strptime\<close> module computes
  it. \<open>TimeRE\<close> maps each directive to a regular expression with a named group; the ones
  for \<open>%d\<close>, \<open>%m\<close>, \<open>%y\<close>, \<open>%Y\<close>, \<open>%b\<close>, \<open>%B\<close> and \<open>%%\<close> are modelled, which are
  all that the formats of the sources use. The month names are those of the C (English)
  locale, in lower case, with the empty name at index 0 as in \<open>LocaleTime\<close>. The
  pattern is compiled with \<open>re.IGNORECASE\<close>: a letter of the pattern matches through
  \<open>ci_eq\<close>, every other character as it is.
\<close>

definition a_month :: "string list" where
  "a_month = [[], ''jan'', ''feb'', ''mar'', ''apr'', ''may'', ''jun'', ''jul'', ''aug'', ''sep'',
              ''oct'', ''nov'', ''dec'']"

definition f_month :: "string list" where
  "f_month = [[], ''january'', ''february'', ''march'', ''april'', ''may'', ''june'', ''july'',
              ''august'', ''september'', ''october'', ''november'', ''december'']"

definition is_letter :: "char \<Rightarrow> bool" where
  "is_letter c =
     ((65 \<le> (of_char c :: nat) \<and> (of_char c :: nat) \<le> 90) \<or>
      (97 \<le> (of_char c :: nat) \<and> (of_char c :: nat) \<le> 122))"

definition atom_of_char :: "char \<Rightarrow> atom" where
  "atom_of_char c = (if is_letter c then LitI (of_char c) else Lit (of_char c))"

definition literal_ci :: "string \<Rightarrow> regex" where
  "literal_ci s = foldr (\<lambda>c r. Seq (Atom (atom_of_char c)) r) s Eps"

fun alternatives :: "regex list \<Rightarrow> regex" where
  "alternatives [] = Eps"
| "alternatives [r] = r"
| "alternatives (r # rs) = Alt r (alternatives rs)"

text \<open>
  \<open>__seqToRE\<close>: the values, longest first (\<open>sorted(key=len, reverse=True)\<close>, which keeps
  the order of values of equal length), as the alternatives of one named group.
\<close>

definition seqToRE :: "string list \<Rightarrow> string \<Rightarrow> regex" where
  "seqToRE to_convert name =
     Group name (alternatives (map literal_ci (sort_key (\<lambda>v. - int (length v)) to_convert)))"

definition chr_range :: "char \<Rightarrow> char \<Rightarrow> regex" where
  "chr_range a b = Atom (Range (of_char a) (of_char b))"

definition chr_lit :: "char \<Rightarrow> regex" where
  "chr_lit a = Atom (Lit (of_char a))"

definition directive_d :: regex where
  "directive_d =
     Group ''d''
       (Alt (Seq (chr_lit CHR ''3'') (chr_range CHR ''0'' CHR ''1''))
       (Alt (Seq (chr_range CHR ''1'' CHR ''2'') (Atom Digit))
       (Alt (Seq (chr_lit CHR ''0'') (chr_range CHR ''1'' CHR ''9''))
       (Alt (chr_range CHR ''1'' CHR ''9'')
            (Seq (chr_lit CHR '' '') (chr_range CHR ''1'' CHR ''9''))))))"

definition directive_m :: regex where
  "directive_m =
     Group ''m''
       (Alt (Seq (chr_lit CHR ''1'') (chr_range CHR ''0'' CHR ''2''))
       (Alt (Seq (chr_lit CHR ''0'') (chr_range CHR ''1'' CHR ''9''))
            (chr_range CHR ''1'' CHR ''9'')))"

definition directive_y :: regex where
  "directive_y = Group ''y'' (Seq (Atom Digit) (Atom Digit))"

definition directive_Y :: regex where
  "directive_Y = Group ''Y'' (Seq (Atom Digit) (Seq (Atom Digit) (Seq (Atom Digit) (Atom Digit))))"

definition directive :: "char \<Rightarrow> regex option" where
  "directive c =
     (if c = CHR ''d'' then Some directive_d
      else if c = CHR ''m'' then Some directive_m
      else if c = CHR ''y'' then Some directive_y
      else if c = CHR ''Y'' then Some directive_Y
      else if c = CHR ''B'' then Some (seqToRE (tl f_month) ''B'')
      else if c = CHR ''b'' then Some (seqToRE (tl a_month) ''b'')
      else if c = CHR ''%'' then Some (chr_lit CHR ''%'')
      else None)"

text \<open>
  \<open>TimeRE.pattern\<close>: every run of whitespace of the format becomes \<open>\s+\<close>, a directive
  becomes its expression, and any other character stands for itself. \<open>in_ws\<close> says that
  the character before was whitespace. \<open>None\<close> is the \<open>ValueError\<close> for a stray \<open>%\<close> or
  a bad directive.
\<close>

definition is_space_char :: "char \<Rightarrow> bool" where
  "is_space_char c = (c = CHR '' '' \<or> (9 \<le> (of_char c :: nat) \<and> (of_char c :: nat) \<le> 13))"

fun pattern :: "bool \<Rightarrow> string \<Rightarrow> regex option" where
  "pattern in_ws [] = Some Eps"
| "pattern in_ws [c] =
     (if c = CHR ''%'' then None
      else if is_space_char c then (if in_ws then Some Eps else Some (Seq (OneOrMore Space) Eps))
      else Some (Seq (Atom (atom_of_char c)) Eps))"
| "pattern in_ws (c # d # rest) =
     (if c = CHR ''%'' then
        (case directive d of
           None \<Rightarrow> None
         | Some r \<Rightarrow> map_option (Seq r) (pattern False rest))
      else if is_space_char c then
        (if in_ws then pattern True (d # rest)
         else map_option (Seq (OneOrMore Space)) (pattern True (d # rest)))
      else map_option (Seq (Atom (atom_of_char c))) (pattern False (d # rest)))"

text \<open>
  The fields \<open>_strptime\<close> fills from the groups of the match, in the order of the groups
  in the pattern. \<open>list.index\<close> raises \<open>ValueError\<close> for a value the list lacks, and so
  does \<open>int\<close>; both are \<open>None\<close> here. \<open>found_dict['b'].lower()\<close> is taken character by
  character.
\<close>

record parsed =
  p_year :: "int option"
  p_month :: int
  p_day :: int

fun index_of :: "'a list \<Rightarrow> 'a \<Rightarrow> nat option" where
  "index_of [] x = None"
| "index_of (y # ys) x = (if y = x then Some 0 else map_option Suc (index_of ys x))"

definition str_lower :: "unicode_db \<Rightarrow> pystr \<Rightarrow> pystr" where
  "str_lower U s = concat (map (lower U) s)"

definition apply_group :: "unicode_db \<Rightarrow> string \<times> pystr \<Rightarrow> parsed \<Rightarrow> parsed option" where
  "apply_group U kv p =
     (case kv of (group_key, v) \<Rightarrow>
      if group_key = ''y'' then
        (case py_int U v of
           None \<Rightarrow> None
         | Some n \<Rightarrow> Some (p\<lparr>p_year := Some (if n \<le> 68 then n + 2000 else n + 1900)\<rparr>))
      else if group_key = ''Y'' then
        (case py_int U v of None \<Rightarrow> None | Some n \<Rightarrow> Some (p\<lparr>p_year := Some n\<rparr>))
      else if group_key = ''m'' then
        (case py_int U v of None \<Rightarrow> None | Some n \<Rightarrow> Some (p\<lparr>p_month := n\<rparr>))
      else if group_key = ''B'' then
        (case index_of (map ustr f_month) (str_lower U v) of
           None \<Rightarrow> None
         | Some i \<Rightarrow> Some (p\<lparr>p_month := int i\<rparr>))
      else if group_key = ''b'' then
        (case index_of (map ustr a_month) (str_lower U v) of
           None \<Rightarrow> None
         | Some i \<Rightarrow> Some (p\<lparr>p_month := int i\<rparr>))
      else if group_key = ''d'' then
        (case py_int U v of None \<Rightarrow> None | Some n \<Rightarrow> Some (p\<lparr>p_day := n\<rparr>))
      else Some p)"

fun apply_groups :: "unicode_db \<Rightarrow> groups \<Rightarrow> parsed \<Rightarrow> parsed option" where
  "apply_groups U [] p = Some p"
| "apply_groups U (kv # rest) p =
     (case apply_group U kv p of None \<Rightarrow> None | Some p' \<Rightarrow> apply_groups U rest p')"

text \<open>
  \<open>datetime.strptime(data_string, format).date()\<close>; \<open>None\<close> is \<open>ValueError\<close>: the
  pattern does not match at the start of the string, or data remains after the match,
  or a field cannot be read, or the date does not exist. A format without a year gives
  the year 1900.
\<close>

definition strptime :: "unicode_db \<Rightarrow> pystr \<Rightarrow> string \<Rightarrow> pydate option" where
  "strptime U data_string fmt =
     (case pattern False fmt of
        None \<Rightarrow> None
      | Some format_regex \<Rightarrow>
          (case re_match U format_regex data_string of
             None \<Rightarrow> None
           | Some (rest, found) \<Rightarrow>
               if rest \<noteq> [] then None
               else
                 (case apply_groups U (rev found) \<lparr>p_year = None, p_month = 1, p_day = 1\<rparr> of
                    None \<Rightarrow> None
                  | Some p \<Rightarrow>
                      let d = \<lparr>year = (case p_year p of None \<Rightarrow> 1900 | Some y \<Rightarrow> y),
                               month = p_month p, day = p_day p\<rparr>
                      in if valid_date d then Some d else None)))"

section \<open>parse_invoice_date\<close>

text \<open>
  \<open>test_rsp_invoice_date_field.py\<close>, lines 53 to 85: the formats are tried in the order
  of the list, a \<open>ValueError\<close> moves on to the next one, and \<open>AssertionError\<close> is raised
  when none is left.
\<close>

definition POSSIBLE_FORMATS :: "string list" where
  "POSSIBLE_FORMATS =
     [''%Y-%m-%d'', ''%m/%d/%Y'', ''%m/%d/%y'', ''%b. %d, %Y'', ''%b %d, %Y'', ''%B %d, %Y'']"

fun try_formats :: "unicode_db \<Rightarrow> pystr \<Rightarrow> string list \<Rightarrow> error + pydate" where
  "try_formats U text [] = Inl AssertionError"
| "try_formats U text (fmt # rest) =
     (case strptime U text fmt of Some d \<Rightarrow> Inr d | None \<Rightarrow> try_formats U text rest)"

definition parse_invoice_date :: "unicode_db \<Rightarrow> pystr \<Rightarrow> error + pydate" where
  "parse_invoice_date U text0 = (let text = strip U text0 in try_formats U text POSSIBLE_FORMATS)"

text \<open>\<open>test_rsp_invoice_date_start_end_fields.py\<close>, lines 43 to 75: the second copy.\<close>

definition POTENTIAL_DATE_FORMATS :: "string list" where
  "POTENTIAL_DATE_FORMATS =
     [''%Y-%m-%d'', ''%m/%d/%Y'', ''%m/%d/%y'', ''%b. %d, %Y'', ''%b %d, %Y'', ''%B %d, %Y'']"

fun try_formats_start_end :: "unicode_db \<Rightarrow> pystr \<Rightarrow> string list \<Rightarrow> error + pydate" where
  "try_formats_start_end U text [] = Inl AssertionError"
| "try_formats_start_end U text (fmt # rest) =
     (case strptime U text fmt of Some d \<Rightarrow> Inr d | None \<Rightarrow> try_formats_start_end U text rest)"

definition parse_invoice_date_start_end :: "unicode_db \<Rightarrow> pystr \<Rightarrow> error + pydate" where
  "parse_invoice_date_start_end U text0 =
     (let text = strip U text0 in try_formats_start_end U text POTENTIAL_DATE_FORMATS)"

text \<open>The pattern that \<open>TimeRE.pattern\<close> builds for the format \<open>%Y-%m-%d\<close>.\<close>

definition iso_regex :: regex where
  "iso_regex =
     Seq directive_Y
    (Seq (Atom (Lit 45))
    (Seq directive_m
    (Seq (Atom (Lit 45))
    (Seq directive_d
      Eps))))"

text \<open>
  \<open>ascii_digits U\<close> says of the database that the characters \<open>0\<close> to \<open>9\<close> are the
  decimal digits of those values and are not whitespace.
\<close>

definition ascii_digits :: "unicode_db \<Rightarrow> bool" where
  "ascii_digits U = (\<forall>d<10. decimal U (48 + d) = Some d \<and> \<not> isspace U (48 + d))"

text \<open>
  What the claim about \<open>get_total_record_count\<close> is stated over. \<open>count_at U t i ds\<close>:
  at offset \<open>i\<close> of \<open>t\<close> stands the literal \<open>Total Record Count\<close>, then at least one
  whitespace character, then the digit run \<open>ds\<close>, which is not empty and is followed by
  no further digit. \<open>dec_value U ds\<close> is the number the digits \<open>ds\<close> write in base ten.
  \<open>plain_digits U\<close> says of the database that no decimal digit is a whitespace character
  (for \<open>str.strip\<close> and \<open>\s\<close>, or for \<open>int\<close>) or a sign, as is the case in Unicode.
\<close>

definition count_at :: "unicode_db \<Rightarrow> pystr \<Rightarrow> nat \<Rightarrow> pystr \<Rightarrow> bool" where
  "count_at U t i ds =
     (\<exists>ws rest. i \<le> length t \<and> drop i t = ustr ''Total Record Count'' @ ws @ ds @ rest \<and>
        ws \<noteq> [] \<and> list_all (isspace U) ws \<and>
        ds \<noteq> [] \<and> list_all (isdecimal U) ds \<and>
        (case rest of [] \<Rightarrow> True | c # _ \<Rightarrow> \<not> isdecimal U c))"

definition lit :: pystr where
  "lit = ustr ''Total Record Count''"

definition dec_value :: "unicode_db \<Rightarrow> pystr \<Rightarrow> nat" where
  "dec_value U ds = foldl (\<lambda>acc c. 10 * acc + (case decimal U c of Some d \<Rightarrow> d | None \<Rightarrow> 0)) 0 ds"

definition plain_digits :: "unicode_db \<Rightarrow> bool" where
  "plain_digits U =
     (\<forall>c. isdecimal U c \<longrightarrow> \<not> isspace U c \<and> \<not> int_space U c \<and> c \<noteq> 43 \<and> c \<noteq> 45)"

section \<open>search_by_model and the prefix iteration of test_rsp_model_field\<close>

text \<open>
  The browser is an abstract page state \<open>'p\<close> with the operations the test performs on
  it: filling the Model field (\<open>fill("")\<close>, then \<open>type(value)\<close> when the value is not
  empty), clicking Search, and the reads the test makes. Highlighting and logging change
  nothing the test reads and are left out; a wait that times out is the read returning
  \<open>False\<close>.
\<close>

record 'p model_page =
  model_input_count :: "'p \<Rightarrow> nat"
  clear_model :: "'p \<Rightarrow> 'p"
  type_model :: "'p \<Rightarrow> pystr \<Rightarrow> 'p"
  search_button_count :: "'p \<Rightarrow> nat"
  click_search :: "'p \<Rightarrow> 'p"
  model_row_visible :: "'p \<Rightarrow> bool"
  total_0_visible :: "'p \<Rightarrow> bool"
  total_p_text :: "'p \<Rightarrow> pystr"

definition search_by_model ::
  "unicode_db \<Rightarrow> 'p model_page \<Rightarrow> 'p \<Rightarrow> pystr \<Rightarrow> error + (int \<times> 'p)" where
  "search_by_model U ops p v =
     (if model_input_count ops p \<noteq> 1 then Inl AssertionError
      else
        let p1 = (if v \<noteq> [] then type_model ops (clear_model ops p) v else clear_model ops p) in
        if search_button_count ops p1 \<noteq> 1 then Inl AssertionError
        else
          let p2 = click_search ops p1;
              has_rows = model_row_visible ops p2 in
          if \<not> has_rows \<and> \<not> total_0_visible ops p2 then Inl PyException
          else
            (case get_total_record_count U (total_p_text ops p2) of
               Inl e \<Rightarrow> Inl e
             | Inr n \<Rightarrow> Inr (n, p2)))"

text \<open>
  Lines 276 to 298: \<open>for i in range(1, len(full_model_name) + 1)\<close>, with
  \<open>total_record_count\<close> carried from one iteration to the next. The loop is run on the
  list of its indices.
\<close>

fun prefix_iteration ::
  "unicode_db \<Rightarrow> 'p model_page \<Rightarrow> pystr \<Rightarrow> nat list \<Rightarrow> 'p \<Rightarrow> int \<Rightarrow> error + (int \<times> 'p)" where
  "prefix_iteration U ops full_model_name [] p total_record_count = Inr (total_record_count, p)"
| "prefix_iteration U ops full_model_name (i # rest) p total_record_count =
     (let partial_value = build_alternating_case_prefix U full_model_name (int i) in
      case search_by_model U ops p partial_value of
        Inl e \<Rightarrow> Inl e
      | Inr (updated_record_count, p') \<Rightarrow>
          if updated_record_count \<le> total_record_count
          then prefix_iteration U ops full_model_name rest p' updated_record_count
          else Inl AssertionError)"

definition model_prefix_loop ::
  "unicode_db \<Rightarrow> 'p model_page \<Rightarrow> pystr \<Rightarrow> 'p \<Rightarrow> int \<Rightarrow> error + (int \<times> 'p)" where
  "model_prefix_loop U ops full_model_name p total_record_count =
     prefix_iteration U ops full_model_name [1..<Suc (length full_model_name)] p total_record_count"

text \<open>
  The outcomes of the searches the loop makes, one after the other on the page each one
  leaves, whatever the counts are: a count, or the exception that ends the run. It is
  what the claim about the loop is stated over.
\<close>

fun search_outcomes ::
  "unicode_db \<Rightarrow> 'p model_page \<Rightarrow> pystr \<Rightarrow> nat list \<Rightarrow> 'p \<Rightarrow> (error + int) list" where
  "search_outcomes U ops full_model_name [] p = []"
| "search_outcomes U ops full_model_name (i # rest) p =
     (case search_by_model U ops p (build_alternating_case_prefix U full_model_name (int i)) of
        Inl e \<Rightarrow> [Inl e]
      | Inr (n, p') \<Rightarrow> Inr n # search_outcomes U ops full_model_name rest p')"

section \<open>assert_status_cell_matches_spec\<close>

text \<open>
  \<open>config/status_ui_spec_definitions.py\<close>: the frozen dataclass and the dictionary,
  as an association list in the order of the source (its keys are distinct).
\<close>

record StatusUISpec =
  must_contain :: "pystr list"
  required_icon_selectors :: "pystr list"

definition STATUS_UI_SPECS :: "(pystr \<times> StatusUISpec) list" where
  "STATUS_UI_SPECS =
    [(ustr ''Dismissed'',
        \<lparr> must_contain = [ustr ''Dismissed'', ustr ''Dismissed''],
          required_icon_selectors = [ustr ''i.bi-dash-circle-fill.text-secondary''] \<rparr>),
     (ustr ''Expired'',
        \<lparr> must_contain = [ustr ''Ineligible'', ustr ''Expired''],
          required_icon_selectors = [ustr ''i.bi-x-circle-fill.text-danger''] \<rparr>),
     (ustr ''Exported'',
        \<lparr> must_contain = [ustr ''Submitted'', ustr ''Exported''],
          required_icon_selectors = [ustr ''i.bi-dash-circle-fill.text-secondary''] \<rparr>),
     (ustr ''Incomplete Requirements'',
        \<lparr> must_contain = [ustr ''Incomplete'', ustr ''Incomplete Requirements''],
          required_icon_selectors = [ustr ''i.bi-exclamation.text-warning''] \<rparr>),
     (ustr ''Ineligible'',
        \<lparr> must_contain = [ustr ''Ineligible'', ustr ''Ineligible''],
          required_icon_selectors = [ustr ''i.bi-x-circle-fill.text-danger''] \<rparr>),
     (ustr ''Ready'',
        \<lparr> must_contain = [ustr ''Submitted'', ustr ''Ready''],
          required_icon_selectors = [ustr ''i.bi-check-circle-fill.text-success''] \<rparr>),
     (ustr ''Unassigned'',
        \<lparr> must_contain = [ustr ''Incomplete'', ustr ''Unassigned''],
          required_icon_selectors = [ustr ''i.bi-exclamation.text-danger''] \<rparr>)]"

text \<open>
  \<open>test_rsp_status_field_expired.py\<close>, lines 4 to 19. The cell is what the test reads
  of it: \<open>cell.locator(sel).count()\<close> for a selector, and \<open>cell.inner_text()\<close>.
  \<open>STATUS_UI_SPECS[status_key]\<close> raises \<open>KeyError\<close> for a key the dictionary lacks.
\<close>

record cell =
  cell_locator_count :: "pystr \<Rightarrow> nat"
  cell_inner_text :: pystr

fun check_icons :: "cell \<Rightarrow> pystr list \<Rightarrow> error + unit" where
  "check_icons c [] = Inr ()"
| "check_icons c (sel # rest) =
     (if 1 \<le> cell_locator_count c sel then check_icons c rest else Inl AssertionError)"

fun check_texts :: "pystr \<Rightarrow> pystr list \<Rightarrow> error + unit" where
  "check_texts cell_text [] = Inr ()"
| "check_texts cell_text (expected # rest) =
     (if py_in expected cell_text then check_texts cell_text rest else Inl AssertionError)"

definition assert_status_cell_matches_spec :: "unicode_db \<Rightarrow> cell \<Rightarrow> pystr \<Rightarrow> error + unit" where
  "assert_status_cell_matches_spec U c status_key =
     (case map_of STATUS_UI_SPECS status_key of
        None \<Rightarrow> Inl KeyError
      | Some spec \<Rightarrow>
          (case check_icons c (required_icon_selectors spec) of
             Inl e \<Rightarrow> Inl e
           | Inr _ \<Rightarrow> check_texts (strip U (cell_inner_text c)) (must_contain spec)))"

section \<open>The Unassigned widget test\<close>

text \<open>
  \<open>test_dashboard_unassigned_widget.py\<close>, from the read of the counter link (line 102)
  to the end. The record holds what the test reads from the browser on the way: the
  counter link's text, the URL after the click, the selected options of the three
  dropdowns, and the text of the Total Record Count paragraph. \<open>market_actor_name\<close> is
  the name the first part of the test read from the card.
\<close>

record unassigned_run =
  market_actor_name :: pystr
  counter_link_text :: pystr
  url_after_click :: pystr
  market_actor_option_text :: pystr
  status_option_text :: pystr
  status_option_value :: "pystr option"
  invoice_date_option_text :: pystr
  total_record_count_el_text :: pystr

definition expected_url :: pystr where
  "expected_url =
     ustr ''https://ic-staging.staging.aws.incentiveconnect.com/salesdata/?status=UNASSIGNED&market_actor=0''"

text \<open>
  Lines 102 to 173: every assertion before the last one. When all of them hold the run
  reaches the final comparison with the two strings \<open>total_record_count\<close> and
  \<open>unassigned_counter\<close>.
\<close>

definition unassigned_checks :: "unicode_db \<Rightarrow> unassigned_run \<Rightarrow> error + (pystr \<times> pystr)" where
  "unassigned_checks U r =
     (let unassigned_counter = strip U (counter_link_text r) in
      if \<not> str_isdigit U unassigned_counter then Inl AssertionError
      else if url_after_click r \<noteq> expected_url then Inl AssertionError
      else if strip U (market_actor_option_text r) \<noteq> market_actor_name r then Inl AssertionError
      else if strip U (status_option_text r) \<noteq> ustr ''Unassigned'' then Inl AssertionError
      else if strip U (case status_option_value r of None \<Rightarrow> [] | Some v \<Rightarrow> v) \<noteq> ustr ''UNASSIGNED''
        then Inl AssertionError
      else if strip U (invoice_date_option_text r) \<noteq> ustr ''All'' then Inl AssertionError
      else
        let total_record_count_text = strip U (total_record_count_el_text r) in
        if \<not> startswith total_record_count_text (ustr ''Total Record Count'') then Inl AssertionError
        else
          let total_record_count =
                strip U (remove_all (ustr ''Total Record Count'') total_record_count_text) in
          if \<not> str_isdigit U total_record_count then Inl AssertionError
          else Inr (total_record_count, unassigned_counter))"

text \<open>Lines 175 to 178: \<open>assert int(total_record_count) == int(unassigned_counter)\<close>.\<close>

definition final_comparison :: "unicode_db \<Rightarrow> pystr \<Rightarrow> pystr \<Rightarrow> error + unit" where
  "final_comparison U total_record_count unassigned_counter =
     (case py_int U total_record_count of
        None \<Rightarrow> Inl ValueError
      | Some a \<Rightarrow>
          (case py_int U unassigned_counter of
             None \<Rightarrow> Inl ValueError
           | Some b \<Rightarrow> if a = b then Inr () else Inl AssertionError))"

definition test_dashboard_sales_summary_section :: "unicode_db \<Rightarrow> unassigned_run \<Rightarrow> error + unit" where
  "test_dashboard_sales_summary_section U r =
     (case unassigned_checks U r of
        Inl e \<Rightarrow> Inl e
      | Inr (total_record_count, unassigned_counter) \<Rightarrow>
          final_comparison U total_record_count unassigned_counter)"

section \<open>test_dashboard_market_actor_check\<close>

text \<open>
  \<open>tests/dashboard/test_dashboard_market_actor_check.py\<close>. The page is an abstract
  state with the operations of the test: reading the card titles, scrolling (the mouse
  wheel and the wait after it), clicking the Recent Sales link, reading the URL and the
  options of the Market Actor combobox.
\<close>

record 'p dashboard_page =
  card_title_texts :: "'p \<Rightarrow> pystr list"
  wheel_and_wait :: "'p \<Rightarrow> 'p"
  click_recent_sales :: "'p \<Rightarrow> 'p"
  current_url :: "'p \<Rightarrow> pystr"
  market_actor_options :: "'p \<Rightarrow> pystr list"

text \<open>
  How one pass through the body of \<open>for _ in range(max_rounds)\<close> ends: it falls through
  to the next round, leaves the loop by \<open>break\<close>, leaves the test by \<open>return\<close>, or
  raises. The loop state is the page, \<open>dashboard_ma_names\<close> and \<open>stable_rounds\<close>.
\<close>

datatype 's outcome = Next 's | Break 's | Return | Raise error

type_synonym 'p ma_state = "'p \<times> pystr set \<times> nat"

definition stable_rounds_to_stop :: nat where
  "stable_rounds_to_stop = 2"

definition max_rounds :: nat where
  "max_rounds = 10"

definition ma_round ::
  "unicode_db \<Rightarrow> 'p dashboard_page \<Rightarrow> 'p ma_state \<Rightarrow> 'p ma_state outcome" where
  "ma_round U ops st =
     (case st of (p, dashboard_ma_names, stable_rounds) \<Rightarrow>
      let dashboard_market_actor_names =
            map (strip U) (filter (\<lambda>t. t \<noteq> [] \<and> strip U t \<noteq> []) (card_title_texts ops p));
          before = card dashboard_ma_names;
          names = dashboard_ma_names \<union> set dashboard_market_actor_names;
          after = card names;
          stable = (if before = after then stable_rounds + 1 else 0)
      in
        if stable_rounds_to_stop \<le> stable then Break (p, names, stable)
        else
          let p1 = click_recent_sales ops (wheel_and_wait ops p) in
          if \<not> endswith (current_url ops p1) (ustr ''/salesdata/'') then Raise PyException
          else
            let active_market_actor_names =
                  map (strip U)
                    (filter (\<lambda>opt. opt \<noteq> [] \<and> strip U opt \<noteq> [] \<and> strip U opt \<noteq> ustr ''All'')
                       (market_actor_options ops p1))
            in
              if names \<noteq> set active_market_actor_names then Raise AssertionError
              else Return)"

text \<open>
  The loop over at most \<open>n\<close> rounds. Nothing follows the loop in the test, so leaving it
  by \<open>break\<close> or by running out of rounds ends the test without an error.
\<close>

fun ma_rounds :: "unicode_db \<Rightarrow> 'p dashboard_page \<Rightarrow> nat \<Rightarrow> 'p ma_state \<Rightarrow> error + unit" where
  "ma_rounds U ops 0 st = Inr ()"
| "ma_rounds U ops (Suc n) st =
     (case ma_round U ops st of
        Next st' \<Rightarrow> ma_rounds U ops n st'
      | Break st' \<Rightarrow> Inr ()
      | Return \<Rightarrow> Inr ()
      | Raise e \<Rightarrow> Inl e)"

text \<open>The test, on the page that \<open>page.goto\<close> left.\<close>

definition test_dashboard_market_actor_check ::
  "unicode_db \<Rightarrow> 'p dashboard_page \<Rightarrow> 'p \<Rightarrow> error + unit" where
  "test_dashboard_market_actor_check U ops p =
     (if \<not> endswith (current_url ops p) (ustr ''/dashboard/'') then Inl PyException
      else ma_rounds U ops max_rounds (p, {}, 0))"

text \<open>A list of counts never grows from one element to the next, starting from \<open>c0\<close>.\<close>

definition chain :: "int \<Rightarrow> int list \<Rightarrow> bool" where
  "chain c0 cs = (\<forall>k<length cs. (c0 # cs) ! Suc k \<le> (c0 # cs) ! k)"

section \<open>Concrete pages for the evaluations\<close>

text \<open>
  A Recent Sales page that shows 3 records for a one-character Model filter and 2 for a
  longer one. Its state is the text of the Model field.
\<close>

definition demo_model_page :: "pystr model_page" where
  "demo_model_page =
     \<lparr> model_input_count = (\<lambda>p. 1), clear_model = (\<lambda>p. []), type_model = (\<lambda>p v. v),
       search_button_count = (\<lambda>p. 1), click_search = (\<lambda>p. p),
       model_row_visible = (\<lambda>p. True), total_0_visible = (\<lambda>p. False),
       total_p_text = (\<lambda>p. ustr ''Total Record Count '' @ (if length p \<le> 1 then [51] else [50])) \<rparr>"

text \<open>A run of the Unassigned widget test on a page where both numbers are twelve.\<close>

definition demo_run :: unassigned_run where
  "demo_run =
     \<lparr> market_actor_name = ustr ''Acme'',
       counter_link_text = ustr '' 12 '',
       url_after_click = expected_url,
       market_actor_option_text = ustr ''Acme'',
       status_option_text = ustr ''Unassigned'',
       status_option_value = Some (ustr ''UNASSIGNED''),
       invoice_date_option_text = ustr ''All'',
       total_record_count_el_text = ustr ''Total Record Count 012'' \<rparr>"

text \<open>
  A dashboard that shows the card of one market actor at first and the card of a second
  one once the page has been scrolled; the Recent Sales dropdown lists both. The state
  counts the scrolls, and 100 more once Recent Sales was opened.
\<close>

definition lazy_dashboard :: "nat dashboard_page" where
  "lazy_dashboard =
     \<lparr> card_title_texts = (\<lambda>p. if p = 0 then [ustr ''Acme''] else [ustr ''Acme'', ustr ''Bolt'']),
       wheel_and_wait = (\<lambda>p. Suc p),
       click_recent_sales = (\<lambda>p. p + 100),
       current_url = (\<lambda>p. if p < 100 then ustr ''https://host/dashboard/'' else ustr ''https://host/salesdata/''),
       market_actor_options = (\<lambda>p. [ustr ''All'', ustr ''Acme'', ustr ''Bolt'']) \<rparr>"

section \<open>Properties of build_alternating_case_prefix\<close>

lemma alternate_model_snoc:
  "alternate_model U (xs @ [c]) rc k =
     alternate_model U xs rc k @
       [if isalpha U c
        then (if even (k + length (filter (isalpha U) xs)) then lower U c else upper U c)
        else [c]]"
  by (induction xs arbitrary: rc k) (simp_all add: even_iff_mod_2_eq_zero)

lemma image_at_append:
  "i < length xs \<Longrightarrow> image_at U (xs @ ys) i = image_at U xs i"
  by (simp add: image_at_def alpha_rank_def nth_append)

lemma image_at_take:
  "i < m \<Longrightarrow> i < length xs \<Longrightarrow> image_at U (take m xs) i = image_at U xs i"
  using image_at_append [of i "take m xs" U "drop m xs"] by simp

lemma alternate_model_images:
  "alternate_model U xs [] 0 = map (image_at U xs) [0..<length xs]"
proof (induction xs rule: rev_induct)
  case Nil
  show ?case by simp
next
  case (snoc c xs)
  have "map (image_at U (xs @ [c])) [0..<length xs] = map (image_at U xs) [0..<length xs]"
    by (simp add: image_at_append)
  moreover have "image_at U (xs @ [c]) (length xs) =
      (if isalpha U c
        then (if even (length (filter (isalpha U) xs)) then lower U c else upper U c)
        else [c])"
    by (simp add: image_at_def alpha_rank_def)
  ultimately show ?case
    using snoc.IH by (simp add: alternate_model_snoc)
qed

lemma slice_to_nonneg: "0 \<le> n \<Longrightarrow> slice_to s n = take (nat n) s"
  by (simp add: slice_to_def)

lemma build_slice:
  "build_alternating_case_prefix U base n =
     concat (map (image_at U (slice_to base n)) [0..<length (slice_to base n)])"
  by (simp add: build_alternating_case_prefix_def alternate_model_images Let_def)

lemma build_images:
  "0 \<le> n \<Longrightarrow> build_alternating_case_prefix U base n =
     concat (map (image_at U base) [0..<min (nat n) (length base)])"
proof -
  assume n: "0 \<le> n"
  have eq: "map (image_at U (take (nat n) base)) [0..<min (nat n) (length base)] =
        map (image_at U base) [0..<min (nat n) (length base)]"
    by (simp add: image_at_take)
  have "build_alternating_case_prefix U base n =
      concat (map (image_at U (take (nat n) base)) [0..<min (nat n) (length base)])"
    using n by (simp add: build_slice slice_to_nonneg min.commute)
  then show ?thesis
    by (simp only: eq)
qed

lemma concat_images_prefix:
  "a \<le> b \<Longrightarrow> prefix (concat (map f [0..<a])) (concat (map f [0..<b]))"
proof -
  assume "a \<le> b"
  then have "[0..<b] = [0..<a] @ [a..<b]"
    by (metis le_add_diff_inverse upt_add_eq_append zero_le)
  then show ?thesis by simp
qed

lemma concat_images_length:
  "(\<And>i. i < m \<Longrightarrow> length (f i) = 1) \<Longrightarrow> length (concat (map f [0..<m])) = m"
  by (induction m) simp_all

lemma concat_images_casefold:
  "(\<And>i. i < m \<Longrightarrow> str_casefold U (f i) = casefold U (g i)) \<Longrightarrow>
     str_casefold U (concat (map f [0..<m])) = str_casefold U (map g [0..<m])"
  by (induction m) (simp_all add: str_casefold_def)

lemma image_at_length:
  assumes "i < length xs"
      and "\<forall>c\<in>set xs. isalpha U c \<longrightarrow> length (lower U c) = 1 \<and> length (upper U c) = 1"
  shows "length (image_at U xs i) = 1"
  using assms by (simp add: image_at_def)

lemma image_at_casefold:
  assumes "i < length xs"
      and "\<forall>c\<in>set xs. isalpha U c \<longrightarrow>
             str_casefold U (lower U c) = casefold U c \<and> str_casefold U (upper U c) = casefold U c"
  shows "str_casefold U (image_at U xs i) = casefold U (xs ! i)"
  using assms by (simp add: image_at_def str_casefold_def)

lemma alternate_manufacturer_eq:
  "alternate_manufacturer U xs rc k = alternate_model U xs rc k"
  by (induction xs arbitrary: rc k) simp_all

lemma alternate_source_id_eq:
  "alternate_source_id U xs rc k = alternate_model U xs rc k"
  by (induction xs arbitrary: rc k) simp_all

lemma build_manufacturer_eq:
  "build_alternating_case_prefix_manufacturer U base n = build_alternating_case_prefix U base n"
  by (simp add: build_alternating_case_prefix_manufacturer_def build_alternating_case_prefix_def
      alternate_manufacturer_eq)

lemma build_source_id_eq:
  "build_alternating_case_prefix_source_id U base n = build_alternating_case_prefix U base n"
  by (simp add: build_alternating_case_prefix_source_id_def build_alternating_case_prefix_def
      alternate_source_id_eq)

lemma concat_images_nth:
  "(\<And>i. i < m \<Longrightarrow> length (f i) = 1) \<Longrightarrow> i < m \<Longrightarrow> [concat (map f [0..<m]) ! i] = f i"
proof (induction m)
  case 0
  then show ?case by simp
next
  case (Suc m)
  have len: "length (concat (map f [0..<m])) = m"
    using Suc.prems(1) by (intro concat_images_length) simp
  show ?case
  proof (cases "i < m")
    case True
    have "[concat (map f [0..<m]) ! i] = f i"
      using Suc.prems(1) True by (intro Suc.IH) simp_all
    then show ?thesis using True len by (simp add: nth_append)
  next
    case False
    then have i: "i = m" using Suc.prems(2) by simp
    have "length (f m) = 1" using Suc.prems(1) by simp
    then obtain x where x: "f m = [x]" by (cases "f m") auto
    show ?thesis using len by (simp add: i nth_append x)
  qed
qed

lemma build_positions:
  assumes n: "0 \<le> n"
      and h: "\<forall>c\<in>set (slice_to base n). isalpha U c \<longrightarrow> length (lower U c) = 1 \<and> length (upper U c) = 1"
  shows "length (build_alternating_case_prefix U base n) = min (nat n) (length base)"
    and "\<forall>i<min (nat n) (length base). [build_alternating_case_prefix U base n ! i] = image_at U base i"
    and "\<forall>i<min (nat n) (length base). \<not> isalpha U (base ! i) \<longrightarrow>
           build_alternating_case_prefix U base n ! i = base ! i"
proof -
  let ?p = "slice_to base n"
  let ?m = "min (nat n) (length base)"
  have len: "length ?p = ?m" using n by (simp add: slice_to_nonneg min.commute)
  have one: "\<And>i. i < length ?p \<Longrightarrow> length (image_at U ?p i) = 1"
    by (rule image_at_length [OF _ h])
  have same: "\<And>i. i < ?m \<Longrightarrow> image_at U ?p i = image_at U base i"
    using n by (simp add: slice_to_nonneg image_at_take)
  show l: "length (build_alternating_case_prefix U base n) = ?m"
    using concat_images_length [of "length ?p" "image_at U ?p", OF one] len
    by (simp only: build_slice)
  show nth: "\<forall>i<?m. [build_alternating_case_prefix U base n ! i] = image_at U base i"
  proof (intro allI impI)
    fix i assume i: "i < ?m"
    then have "i < length ?p" using len by simp
    then have "[concat (map (image_at U ?p) [0..<length ?p]) ! i] = image_at U ?p i"
      by (intro concat_images_nth one)
    then show "[build_alternating_case_prefix U base n ! i] = image_at U base i"
      using same [OF i] by (simp only: build_slice)
  qed
  show "\<forall>i<?m. \<not> isalpha U (base ! i) \<longrightarrow> build_alternating_case_prefix U base n ! i = base ! i"
  proof (intro allI impI)
    fix i assume i: "i < ?m" and na: "\<not> isalpha U (base ! i)"
    have "[build_alternating_case_prefix U base n ! i] = image_at U base i" using nth i by blast
    then show "build_alternating_case_prefix U base n ! i = base ! i"
      using na by (simp add: image_at_def)
  qed
qed

lemma build_extends:
  assumes "0 \<le> i" and "i \<le> n"
  shows "prefix (build_alternating_case_prefix U base i) (build_alternating_case_prefix U base n) \<and>
    ((\<forall>c\<in>set (slice_to base n). isalpha U c \<longrightarrow> length (lower U c) = 1 \<and> length (upper U c) = 1)
       \<longrightarrow> length (build_alternating_case_prefix U base n) = min (nat n) (length base)) \<and>
    ((\<forall>c\<in>set (slice_to base n). isalpha U c \<longrightarrow>
         str_casefold U (lower U c) = casefold U c \<and> str_casefold U (upper U c) = casefold U c)
       \<longrightarrow> str_casefold U (build_alternating_case_prefix U base n) = str_casefold U (slice_to base n))"
proof (intro conjI impI)
  have n: "0 \<le> n" using assms by simp
  have "min (nat i) (length base) \<le> min (nat n) (length base)"
    using assms by simp
  then show "prefix (build_alternating_case_prefix U base i) (build_alternating_case_prefix U base n)"
    using assms n by (simp only: build_images concat_images_prefix)
  let ?p = "slice_to base n"
  have len: "length ?p = min (nat n) (length base)"
    using n by (simp add: slice_to_nonneg min.commute)
  {
    assume h: "\<forall>c\<in>set ?p. isalpha U c \<longrightarrow> length (lower U c) = 1 \<and> length (upper U c) = 1"
    have "length (concat (map (image_at U ?p) [0..<length ?p])) = length ?p"
      by (rule concat_images_length) (rule image_at_length [OF _ h])
    then show "length (build_alternating_case_prefix U base n) = min (nat n) (length base)"
      using len by (simp only: build_slice)
  }
  {
    assume h: "\<forall>c\<in>set ?p. isalpha U c \<longrightarrow>
         str_casefold U (lower U c) = casefold U c \<and> str_casefold U (upper U c) = casefold U c"
    have "str_casefold U (concat (map (image_at U ?p) [0..<length ?p])) =
          str_casefold U (map (\<lambda>i. ?p ! i) [0..<length ?p])"
      by (rule concat_images_casefold) (rule image_at_casefold [OF _ h])
    then show "str_casefold U (build_alternating_case_prefix U base n) = str_casefold U ?p"
      by (simp only: build_slice map_nth)
  }
qed

text \<open>
  Claim C2, as stated, fails: \<open>'\<ss>'.upper()\<close> is \<open>'SS'\<close>, so the result for
  \<open>base = 'a\<ss>-'\<close> and length 3 is \<open>'aSS-'\<close>. It has four characters and not
  three, and the dash, which is not alphabetic, stands at index 3 and not at index 2.
\<close>

theorem build_alternating_case_prefix_position_counterexample:
  "build_alternating_case_prefix latin1 [97, 223, 45] 3 = [97, 83, 83, 45] \<and>
   length (build_alternating_case_prefix latin1 [97, 223, 45] 3) \<noteq> min (nat 3) (length [97, 223, 45 :: nat]) \<and>
   \<not> isalpha latin1 ([97, 223, 45] ! 2) \<and>
   build_alternating_case_prefix latin1 [97, 223, 45] 3 ! 2 \<noteq> [97, 223, 45] ! 2"
  by (simp add: build_alternating_case_prefix_def slice_to_def latin1_def
      latin1_isalpha_def latin1_lower_def latin1_upper_def)

text \<open>
  Claim C2, amended, for the copies of \<open>test_rsp_model_field.py\<close> and
  \<open>test_rsp_manufacturer_field.py\<close>. For every string \<open>base\<close> and every natural
  number \<open>n\<close>, the result is the concatenation, in order, of the images of the first
  \<open>min(n, len(base))\<close> characters of \<open>base\<close>: \<open>lower()\<close> of an alphabetic character
  that an even number of alphabetic characters precede, \<open>upper()\<close> of one that an odd
  number precede, and the character itself when it is not alphabetic (\<open>image_at\<close>).
  When \<open>lower()\<close> and \<open>upper()\<close> of every alphabetic character of \<open>base[:n]\<close> are
  one character long, the result has exactly \<open>min(n, len(base))\<close> characters, its
  character at each position is the image of the character of \<open>base\<close> at that
  position, and every character that is not alphabetic is unchanged in its position.
\<close>

theorem build_alternating_case_prefix_images:
  assumes "0 \<le> n"
  shows "\<forall>build\<in>{build_alternating_case_prefix, build_alternating_case_prefix_manufacturer}.
     build U base n = concat (map (image_at U base) [0..<min (nat n) (length base)]) \<and>
     ((\<forall>c\<in>set (slice_to base n). isalpha U c \<longrightarrow> length (lower U c) = 1 \<and> length (upper U c) = 1)
        \<longrightarrow> length (build U base n) = min (nat n) (length base) \<and>
            (\<forall>i<min (nat n) (length base). [build U base n ! i] = image_at U base i) \<and>
            (\<forall>i<min (nat n) (length base). \<not> isalpha U (base ! i) \<longrightarrow> build U base n ! i = base ! i))"
proof -
  have m: "build_alternating_case_prefix U base n =
        concat (map (image_at U base) [0..<min (nat n) (length base)]) \<and>
     ((\<forall>c\<in>set (slice_to base n). isalpha U c \<longrightarrow> length (lower U c) = 1 \<and> length (upper U c) = 1)
        \<longrightarrow> length (build_alternating_case_prefix U base n) = min (nat n) (length base) \<and>
            (\<forall>i<min (nat n) (length base).
               [build_alternating_case_prefix U base n ! i] = image_at U base i) \<and>
            (\<forall>i<min (nat n) (length base). \<not> isalpha U (base ! i) \<longrightarrow>
               build_alternating_case_prefix U base n ! i = base ! i))"
    using build_images [OF assms] build_positions [OF assms] by blast
  have e: "build_alternating_case_prefix_manufacturer = build_alternating_case_prefix"
    by (intro ext) (rule build_manufacturer_eq)
  show ?thesis
  proof (intro ballI)
    fix build
    assume "build \<in> {build_alternating_case_prefix, build_alternating_case_prefix_manufacturer}"
    then have b: "build = build_alternating_case_prefix" using e by blast
    show "build U base n = concat (map (image_at U base) [0..<min (nat n) (length base)]) \<and>
     ((\<forall>c\<in>set (slice_to base n). isalpha U c \<longrightarrow> length (lower U c) = 1 \<and> length (upper U c) = 1)
        \<longrightarrow> length (build U base n) = min (nat n) (length base) \<and>
            (\<forall>i<min (nat n) (length base). [build U base n ! i] = image_at U base i) \<and>
            (\<forall>i<min (nat n) (length base). \<not> isalpha U (base ! i) \<longrightarrow> build U base n ! i = base ! i))"
      unfolding b by (rule m)
  qed
qed

theorem build_alternating_case_prefix_images_witness:
  "(0::int) \<le> 4 \<and>
   build_alternating_case_prefix latin1 (ustr ''MF-123'') 4 = ustr ''mF-1'' \<and>
   build_alternating_case_prefix_manufacturer latin1 (ustr ''MF-123'') 4 =
     concat (map (image_at latin1 (ustr ''MF-123'')) [0..<min (nat 4) (length (ustr ''MF-123''))]) \<and>
   length (build_alternating_case_prefix_manufacturer latin1 (ustr ''MF-123'') 4) = 4 \<and>
   build_alternating_case_prefix_manufacturer latin1 (ustr ''MF-123'') 4 ! 2 = ustr ''MF-123'' ! 2"
proof -
  have s: "slice_to (ustr ''MF-123'') 4 = [77, 70, 45, 49]"
    by (simp add: slice_to_def ustr_def)
  have h: "\<forall>c\<in>set (slice_to (ustr ''MF-123'') 4). isalpha latin1 c \<longrightarrow>
      length (lower latin1 c) = 1 \<and> length (upper latin1 c) = 1"
    by (simp add: s latin1_def latin1_lower_def latin1_upper_def)
  have l: "min (nat 4) (length (ustr ''MF-123'')) = 4" by (simp add: ustr_def)
  have na: "\<not> isalpha latin1 (ustr ''MF-123'' ! 2)"
    by (simp add: ustr_def latin1_def latin1_isalpha_def)
  have ev: "build_alternating_case_prefix latin1 (ustr ''MF-123'') 4 = ustr ''mF-1''"
    by (simp add: build_alternating_case_prefix_def slice_to_def ustr_def latin1_def
        latin1_isalpha_def latin1_lower_def latin1_upper_def)
  have mem: "build_alternating_case_prefix_manufacturer \<in>
      {build_alternating_case_prefix, build_alternating_case_prefix_manufacturer}" by blast
  have z: "(0::int) \<le> 4" by simp
  note t = bspec [OF build_alternating_case_prefix_images [OF z, of latin1 "ustr ''MF-123''"] mem]
  have t1: "build_alternating_case_prefix_manufacturer latin1 (ustr ''MF-123'') 4 =
        concat (map (image_at latin1 (ustr ''MF-123'')) [0..<min (nat 4) (length (ustr ''MF-123''))])"
    using t by (rule conjunct1)
  have t2: "length (build_alternating_case_prefix_manufacturer latin1 (ustr ''MF-123'') 4) =
        min (nat 4) (length (ustr ''MF-123'')) \<and>
     (\<forall>i<min (nat 4) (length (ustr ''MF-123'')).
        [build_alternating_case_prefix_manufacturer latin1 (ustr ''MF-123'') 4 ! i] =
        image_at latin1 (ustr ''MF-123'') i) \<and>
     (\<forall>i<min (nat 4) (length (ustr ''MF-123'')). \<not> isalpha latin1 (ustr ''MF-123'' ! i) \<longrightarrow>
        build_alternating_case_prefix_manufacturer latin1 (ustr ''MF-123'') 4 ! i = ustr ''MF-123'' ! i)"
    using t [THEN conjunct2] h by (rule mp)
  have t3: "length (build_alternating_case_prefix_manufacturer latin1 (ustr ''MF-123'') 4) = 4"
    using t2 [THEN conjunct1] by (simp only: l)
  have "2 < min (nat 4) (length (ustr ''MF-123''))" by (simp only: l)
  then have t4: "build_alternating_case_prefix_manufacturer latin1 (ustr ''MF-123'') 4 ! 2 =
      ustr ''MF-123'' ! 2"
    using t2 [THEN conjunct2, THEN conjunct2] na by blast
  show ?thesis using z ev t1 t3 t4 by (intro conjI)
qed

text \<open>
  Claim C9, as stated, fails in two of its three parts. \<open>'\<ss>'.upper()\<close> is \<open>'SS'\<close>,
  so the result for \<open>base = 'a\<ss>'\<close> and length 2 is \<open>'aSS'\<close>, three characters and
  not two. The dotless i (U+0131) is uppercased to \<open>'I'\<close>, which \<open>casefold()\<close> turns
  into the dotted \<open>'i'\<close>, while \<open>casefold()\<close> leaves the dotless i as it is: the
  result for \<open>base = U+0061 U+0131\<close> (the second character being U+0131) and length 2 is
  \<open>'aI'\<close>, which is not equal to the prefix under \<open>casefold()\<close>.
\<close>

theorem build_alternating_case_prefix_length_casefold_counterexample:
  "build_alternating_case_prefix latin1 [97, 223] 2 = [97, 83, 83] \<and>
   length (build_alternating_case_prefix latin1 [97, 223] 2) \<noteq> min (nat 2) (length [97, 223 :: nat]) \<and>
   build_alternating_case_prefix with_dotless_i [97, 305] 2 = [97, 73] \<and>
   str_casefold with_dotless_i (build_alternating_case_prefix with_dotless_i [97, 305] 2) = [97, 105] \<and>
   str_casefold with_dotless_i (slice_to [97, 305] 2) = [97, 305] \<and>
   str_casefold with_dotless_i (build_alternating_case_prefix with_dotless_i [97, 305] 2) \<noteq>
     str_casefold with_dotless_i (slice_to [97, 305] 2)"
  by (simp add: build_alternating_case_prefix_def slice_to_def latin1_def with_dotless_i_def
      latin1_isalpha_def latin1_lower_def latin1_upper_def latin1_casefold_def str_casefold_def)

text \<open>
  Claim C9, amended, for the copies of \<open>test_rsp_model_field.py\<close> and
  \<open>test_rsp_source_id_field.py\<close>. For lengths \<open>0 \<le> i \<le> n\<close>, the length-\<open>i\<close> result
  is a string prefix of the length-\<open>n\<close> result, for every \<open>base\<close>. The length-\<open>n\<close>
  result has exactly \<open>min(n, len(base))\<close> characters when \<open>lower()\<close> and \<open>upper()\<close>
  of every alphabetic character of \<open>base[:n]\<close> are one character long. It is equal to
  \<open>base[:n]\<close> after \<open>casefold()\<close> when, for every alphabetic character \<open>c\<close> of
  \<open>base[:n]\<close>, \<open>c.lower().casefold()\<close> and \<open>c.upper().casefold()\<close> are
  \<open>c.casefold()\<close>.
\<close>

theorem build_alternating_case_prefix_extends:
  assumes "0 \<le> i" and "i \<le> n"
  shows "\<forall>build\<in>{build_alternating_case_prefix, build_alternating_case_prefix_source_id}.
    prefix (build U base i) (build U base n) \<and>
    ((\<forall>c\<in>set (slice_to base n). isalpha U c \<longrightarrow> length (lower U c) = 1 \<and> length (upper U c) = 1)
       \<longrightarrow> length (build U base n) = min (nat n) (length base)) \<and>
    ((\<forall>c\<in>set (slice_to base n). isalpha U c \<longrightarrow>
         str_casefold U (lower U c) = casefold U c \<and> str_casefold U (upper U c) = casefold U c)
       \<longrightarrow> str_casefold U (build U base n) = str_casefold U (slice_to base n))"
proof (intro ballI)
  fix build
  have e: "build_alternating_case_prefix_source_id = build_alternating_case_prefix"
    by (intro ext) (rule build_source_id_eq)
  assume "build \<in> {build_alternating_case_prefix, build_alternating_case_prefix_source_id}"
  then have b: "build = build_alternating_case_prefix" using e by blast
  show "prefix (build U base i) (build U base n) \<and>
    ((\<forall>c\<in>set (slice_to base n). isalpha U c \<longrightarrow> length (lower U c) = 1 \<and> length (upper U c) = 1)
       \<longrightarrow> length (build U base n) = min (nat n) (length base)) \<and>
    ((\<forall>c\<in>set (slice_to base n). isalpha U c \<longrightarrow>
         str_casefold U (lower U c) = casefold U c \<and> str_casefold U (upper U c) = casefold U c)
       \<longrightarrow> str_casefold U (build U base n) = str_casefold U (slice_to base n))"
    unfolding b using assms by (rule build_extends)
qed

theorem build_alternating_case_prefix_extends_witness:
  "prefix (build_alternating_case_prefix_source_id latin1 (ustr ''MF-123'') 2)
          (build_alternating_case_prefix_source_id latin1 (ustr ''MF-123'') 4) \<and>
   length (build_alternating_case_prefix_source_id latin1 (ustr ''MF-123'') 4) = 4 \<and>
   str_casefold latin1 (build_alternating_case_prefix_source_id latin1 (ustr ''MF-123'') 4) =
     str_casefold latin1 (slice_to (ustr ''MF-123'') 4)"
proof -
  have s: "slice_to (ustr ''MF-123'') 4 = [77, 70, 45, 49]"
    by (simp add: slice_to_def ustr_def)
  have h1: "\<forall>c\<in>set (slice_to (ustr ''MF-123'') 4). isalpha latin1 c \<longrightarrow>
      length (lower latin1 c) = 1 \<and> length (upper latin1 c) = 1"
    by (simp add: s latin1_def latin1_lower_def latin1_upper_def)
  have h2: "\<forall>c\<in>set (slice_to (ustr ''MF-123'') 4). isalpha latin1 c \<longrightarrow>
      str_casefold latin1 (lower latin1 c) = casefold latin1 c \<and>
      str_casefold latin1 (upper latin1 c) = casefold latin1 c"
    by (simp add: s latin1_def latin1_lower_def latin1_upper_def latin1_casefold_def
        latin1_isalpha_def str_casefold_def)
  have l: "min (nat 4) (length (ustr ''MF-123'')) = 4" by (simp add: ustr_def)
  have mem: "build_alternating_case_prefix_source_id \<in>
      {build_alternating_case_prefix, build_alternating_case_prefix_source_id}" by blast
  have z: "(0::int) \<le> 2" "(2::int) \<le> 4" by simp_all
  note t = bspec [OF build_alternating_case_prefix_extends [OF z, of latin1 "ustr ''MF-123''"] mem]
  have t1: "prefix (build_alternating_case_prefix_source_id latin1 (ustr ''MF-123'') 2)
          (build_alternating_case_prefix_source_id latin1 (ustr ''MF-123'') 4)"
    using t by (rule conjunct1)
  have "length (build_alternating_case_prefix_source_id latin1 (ustr ''MF-123'') 4) =
      min (nat 4) (length (ustr ''MF-123''))"
    using t [THEN conjunct2, THEN conjunct1] h1 by (rule mp)
  then have t2: "length (build_alternating_case_prefix_source_id latin1 (ustr ''MF-123'') 4) = 4"
    by (simp only: l)
  have t3: "str_casefold latin1 (build_alternating_case_prefix_source_id latin1 (ustr ''MF-123'') 4) =
     str_casefold latin1 (slice_to (ustr ''MF-123'') 4)"
    using t [THEN conjunct2, THEN conjunct2] h2 by (rule mp)
  show ?thesis using t1 t2 t3 by (intro conjI)
qed

section \<open>Properties of assert_status_cell_matches_spec\<close>

lemma py_in_iff: "py_in sub s \<longleftrightarrow> (\<exists>pre post. s = pre @ sub @ post)"
proof (induction s)
  case Nil
  show ?case by auto
next
  case (Cons c cs)
  show ?case
  proof
    assume "py_in sub (c # cs)"
    then consider "prefix sub (c # cs)" | "py_in sub cs" by auto
    then show "\<exists>pre post. c # cs = pre @ sub @ post"
    proof cases
      case 1
      then obtain post where "c # cs = sub @ post" by (auto simp: prefix_def)
      then have "c # cs = [] @ sub @ post" by simp
      then show ?thesis by blast
    next
      case 2
      then obtain pre post where "cs = pre @ sub @ post" using Cons.IH by blast
      then have "c # cs = (c # pre) @ sub @ post" by simp
      then show ?thesis by blast
    qed
  next
    assume "\<exists>pre post. c # cs = pre @ sub @ post"
    then obtain pre post where e: "c # cs = pre @ sub @ post" by blast
    show "py_in sub (c # cs)"
    proof (cases pre)
      case Nil
      then have "prefix sub (c # cs)" using e by (simp add: prefix_def)
      then show ?thesis by simp
    next
      case (Cons a pre')
      then have "cs = pre' @ sub @ post" using e by simp
      then have "py_in sub cs" using Cons.IH by blast
      then show ?thesis by simp
    qed
  qed
qed

lemma check_icons_eq:
  "check_icons c sels =
     (if \<forall>sel\<in>set sels. 1 \<le> cell_locator_count c sel then Inr () else Inl AssertionError)"
  by (induction sels) auto

lemma check_texts_eq:
  "check_texts t es =
     (if \<forall>e\<in>set es. \<exists>pre post. t = pre @ e @ post then Inr () else Inl AssertionError)"
  by (induction es) (auto simp: py_in_iff)

text \<open>
  Claim C7. For a key of \<open>STATUS_UI_SPECS\<close>, \<open>assert_status_cell_matches_spec\<close>
  succeeds exactly when every selector of \<open>required_icon_selectors\<close> matches at least
  one element inside the cell and every string of \<open>must_contain\<close> occurs in the cell's
  stripped inner text; in every other case it raises \<open>AssertionError\<close>.
\<close>

theorem assert_status_cell_matches_spec_iff:
  assumes "map_of STATUS_UI_SPECS status_key = Some spec"
  shows "assert_status_cell_matches_spec U c status_key =
     (if (\<forall>sel\<in>set (required_icon_selectors spec). 1 \<le> cell_locator_count c sel) \<and>
         (\<forall>e\<in>set (must_contain spec). \<exists>pre post. strip U (cell_inner_text c) = pre @ e @ post)
      then Inr () else Inl AssertionError)"
  using assms
  by (simp add: assert_status_cell_matches_spec_def check_icons_eq check_texts_eq)

lemma expired_spec:
  "map_of STATUS_UI_SPECS (ustr ''Expired'') =
     Some \<lparr> must_contain = [ustr ''Ineligible'', ustr ''Expired''],
            required_icon_selectors = [ustr ''i.bi-x-circle-fill.text-danger''] \<rparr>"
  by (simp add: STATUS_UI_SPECS_def ustr_def)

theorem assert_status_cell_matches_spec_iff_witness:
  "assert_status_cell_matches_spec latin1
      \<lparr> cell_locator_count = (\<lambda>sel. if sel = ustr ''i.bi-x-circle-fill.text-danger'' then 1 else 0),
        cell_inner_text = ustr '' Ineligible: Expired '' \<rparr> (ustr ''Expired'') = Inr () \<and>
   assert_status_cell_matches_spec latin1
      \<lparr> cell_locator_count = (\<lambda>sel. if sel = ustr ''i.bi-x-circle-fill.text-danger'' then 1 else 0),
        cell_inner_text = ustr ''Ineligible'' \<rparr> (ustr ''Expired'') = Inl AssertionError"
proof -
  have s1: "strip latin1 (ustr '' Ineligible: Expired '') = ustr ''Ineligible'' @ ustr '': Expired''"
    by (simp add: strip_def ustr_def latin1_def latin1_isspace_def)
  have s1': "strip latin1 (ustr '' Ineligible: Expired '') = ustr ''Ineligible: '' @ ustr ''Expired''"
    by (simp add: strip_def ustr_def latin1_def latin1_isspace_def)
  have a: "\<exists>pre post. strip latin1 (ustr '' Ineligible: Expired '') = pre @ ustr ''Ineligible'' @ post"
    using s1 by (metis append_Nil)
  have b: "\<exists>pre post. strip latin1 (ustr '' Ineligible: Expired '') = pre @ ustr ''Expired'' @ post"
    using s1' by (metis append_Nil2)
  have s2: "strip latin1 (ustr ''Ineligible'') = ustr ''Ineligible''"
    by (simp add: strip_def ustr_def latin1_def latin1_isspace_def)
  have c: "\<not> (\<exists>pre post. ustr ''Ineligible'' = pre @ ustr ''Expired'' @ post)"
    using py_in_iff [of "ustr ''Expired''" "ustr ''Ineligible''"] by (simp add: ustr_def)
  show ?thesis
    using assert_status_cell_matches_spec_iff [OF expired_spec, of latin1] a b c s2 by simp
qed

section \<open>Properties of the Unassigned widget test\<close>

text \<open>
  Claim C1. In a run that reaches the final comparison, \<open>total_record_count\<close> is what
  is left of the stripped paragraph text once \<open>Total Record Count\<close> is removed, and
  \<open>unassigned_counter\<close> is the stripped text of the counter link. The test passes
  exactly when \<open>int\<close> reads the same integer from both, and two different integers
  fail it with \<open>AssertionError\<close>.
\<close>

theorem unassigned_counter_matches_total:
  assumes "unassigned_checks U r = Inr (total_record_count, unassigned_counter)"
  shows "total_record_count =
           strip U (remove_all (ustr ''Total Record Count'') (strip U (total_record_count_el_text r))) \<and>
         unassigned_counter = strip U (counter_link_text r) \<and>
         (test_dashboard_sales_summary_section U r = Inr () \<longleftrightarrow>
            (\<exists>k. py_int U total_record_count = Some k \<and> py_int U unassigned_counter = Some k)) \<and>
         (\<forall>a b. py_int U total_record_count = Some a \<and> py_int U unassigned_counter = Some b \<and> a \<noteq> b
            \<longrightarrow> test_dashboard_sales_summary_section U r = Inl AssertionError)"
proof -
  have t: "test_dashboard_sales_summary_section U r = final_comparison U total_record_count unassigned_counter"
    using assms by (simp add: test_dashboard_sales_summary_section_def)
  have "total_record_count =
           strip U (remove_all (ustr ''Total Record Count'') (strip U (total_record_count_el_text r))) \<and>
         unassigned_counter = strip U (counter_link_text r)"
    using assms by (auto simp: unassigned_checks_def Let_def split: if_splits)
  moreover have "(final_comparison U total_record_count unassigned_counter = Inr ()) \<longleftrightarrow>
      (\<exists>k. py_int U total_record_count = Some k \<and> py_int U unassigned_counter = Some k)"
    by (auto simp: final_comparison_def split: option.splits)
  moreover have "\<forall>a b. py_int U total_record_count = Some a \<and> py_int U unassigned_counter = Some b \<and> a \<noteq> b
      \<longrightarrow> final_comparison U total_record_count unassigned_counter = Inl AssertionError"
    by (auto simp: final_comparison_def)
  ultimately show ?thesis using t by simp
qed

lemma strip_simps:
  "strip latin1 (ustr '' 12 '') = ustr ''12''"
  "strip latin1 (ustr ''Acme'') = ustr ''Acme''"
  "strip latin1 (ustr ''Unassigned'') = ustr ''Unassigned''"
  "strip latin1 (ustr ''UNASSIGNED'') = ustr ''UNASSIGNED''"
  "strip latin1 (ustr ''All'') = ustr ''All''"
  "strip latin1 (ustr ''Total Record Count 012'') = ustr ''Total Record Count 012''"
  "strip latin1 (ustr '' 012'') = ustr ''012''"
  by (simp_all add: strip_def ustr_def latin1_def latin1_isspace_def)

lemma demo_checks: "unassigned_checks latin1 demo_run = Inr (ustr ''012'', ustr ''12'')"
proof -
  have r: "remove_all (ustr ''Total Record Count'') (ustr ''Total Record Count 012'') = ustr '' 012''"
    by (simp add: ustr_def)
  have d: "str_isdigit latin1 (ustr ''12'')" "str_isdigit latin1 (ustr ''012'')"
    by (simp_all add: str_isdigit_def ustr_def latin1_def latin1_isdigit_def)
  have p: "startswith (ustr ''Total Record Count 012'') (ustr ''Total Record Count'')"
    by (simp add: startswith_def ustr_def)
  show ?thesis
    by (simp add: unassigned_checks_def demo_run_def strip_simps r d p)
qed

theorem unassigned_counter_matches_total_witness:
  "unassigned_checks latin1 demo_run = Inr (ustr ''012'', ustr ''12'') \<and>
   py_int latin1 (ustr ''012'') = Some 12 \<and> py_int latin1 (ustr ''12'') = Some 12 \<and>
   test_dashboard_sales_summary_section latin1 demo_run = Inr ()"
proof -
  have i: "py_int latin1 (ustr ''012'') = Some 12" "py_int latin1 (ustr ''12'') = Some 12"
    by (simp_all add: py_int_def int_strip_def int_space_def int_digits_def max_str_digits_def
        isdecimal_def ustr_def latin1_def latin1_decimal_def)
  show ?thesis
    using unassigned_counter_matches_total [OF demo_checks] demo_checks i by simp
qed

section \<open>Properties of the prefix iteration\<close>

lemma chain_Cons: "chain c0 (c # cs) \<longleftrightarrow> c \<le> c0 \<and> chain c cs"
proof -
  have "chain c0 (c # cs) \<longleftrightarrow> (\<forall>k<Suc (length cs). (c0 # c # cs) ! Suc k \<le> (c0 # c # cs) ! k)"
    by (simp add: chain_def)
  also have "\<dots> \<longleftrightarrow> (c0 # c # cs) ! Suc 0 \<le> (c0 # c # cs) ! 0 \<and>
      (\<forall>k<length cs. (c0 # c # cs) ! Suc (Suc k) \<le> (c0 # c # cs) ! Suc k)"
    by (rule All_less_Suc2)
  finally show ?thesis by (simp add: chain_def)
qed

lemma prefix_iteration_pass:
  "(\<exists>p'. prefix_iteration U ops full idxs p c0 = Inr (c, p')) \<longleftrightarrow>
   (\<exists>cs. search_outcomes U ops full idxs p = map Inr cs \<and> length cs = length idxs \<and>
         chain c0 cs \<and> c = last (c0 # cs))"
proof (induction idxs arbitrary: p c0)
  case Nil
  show ?case by (auto simp: chain_def)
next
  case (Cons i rest)
  let ?s = "search_by_model U ops p (build_alternating_case_prefix U full (int i))"
  show ?case
  proof (cases ?s)
    case (Inl e)
    then show ?thesis by auto
  next
    case (Inr np)
    obtain n p1 where np: "np = (n, p1)" by (cases np)
    have L: "(\<exists>p'. prefix_iteration U ops full (i # rest) p c0 = Inr (c, p')) \<longleftrightarrow>
        n \<le> c0 \<and> (\<exists>p'. prefix_iteration U ops full rest p1 n = Inr (c, p'))"
      using Inr np by simp
    have R: "(\<exists>cs. search_outcomes U ops full (i # rest) p = map Inr cs \<and>
          length cs = length (i # rest) \<and> chain c0 cs \<and> c = last (c0 # cs)) \<longleftrightarrow>
        n \<le> c0 \<and> (\<exists>cs'. search_outcomes U ops full rest p1 = map Inr cs' \<and>
          length cs' = length rest \<and> chain n cs' \<and> c = last (n # cs'))"
    proof
      assume "\<exists>cs. search_outcomes U ops full (i # rest) p = map Inr cs \<and>
          length cs = length (i # rest) \<and> chain c0 cs \<and> c = last (c0 # cs)"
      then obtain cs where cs: "search_outcomes U ops full (i # rest) p = map Inr cs"
          "length cs = length (i # rest)" "chain c0 cs" "c = last (c0 # cs)" by blast
      from cs(2) obtain x cs' where x: "cs = x # cs'" by (cases cs) auto
      have "x = n" "search_outcomes U ops full rest p1 = map Inr cs'"
        using cs(1) Inr np x by auto
      then show "n \<le> c0 \<and> (\<exists>cs'. search_outcomes U ops full rest p1 = map Inr cs' \<and>
          length cs' = length rest \<and> chain n cs' \<and> c = last (n # cs'))"
        using cs x by (auto simp: chain_Cons)
    next
      assume "n \<le> c0 \<and> (\<exists>cs'. search_outcomes U ops full rest p1 = map Inr cs' \<and>
          length cs' = length rest \<and> chain n cs' \<and> c = last (n # cs'))"
      then obtain cs' where cs': "n \<le> c0" "search_outcomes U ops full rest p1 = map Inr cs'"
          "length cs' = length rest" "chain n cs'" "c = last (n # cs')" by blast
      have "search_outcomes U ops full (i # rest) p = map Inr (n # cs')"
        using Inr np cs'(2) by simp
      moreover have "length (n # cs') = length (i # rest)" using cs'(3) by simp
      moreover have "chain c0 (n # cs')" using cs'(1,4) by (simp add: chain_Cons)
      moreover have "c = last (c0 # n # cs')" using cs'(5) by simp
      ultimately show "\<exists>cs. search_outcomes U ops full (i # rest) p = map Inr cs \<and>
          length cs = length (i # rest) \<and> chain c0 cs \<and> c = last (c0 # cs)" by blast
    qed
    show ?thesis
      using L R Cons.IH [of p1 n] by simp
  qed
qed

lemma prefix_iteration_fail:
  "search_outcomes U ops full idxs p = map Inr cs @ others \<Longrightarrow> k < length cs \<Longrightarrow>
   (\<forall>j<k. (c0 # cs) ! Suc j \<le> (c0 # cs) ! j) \<Longrightarrow> (c0 # cs) ! k < (c0 # cs) ! Suc k \<Longrightarrow>
   prefix_iteration U ops full idxs p c0 = Inl AssertionError"
proof (induction idxs arbitrary: p c0 cs k)
  case Nil
  then show ?case by simp
next
  case (Cons i rest)
  from Cons.prems(2) obtain x cs' where x: "cs = x # cs'" by (cases cs) auto
  let ?s = "search_by_model U ops p (build_alternating_case_prefix U full (int i))"
  from Cons.prems(1) x obtain p1 where s: "?s = Inr (x, p1)"
      and r: "search_outcomes U ops full rest p1 = map Inr cs' @ others"
    by (auto split: sum.splits)
  show ?case
  proof (cases k)
    case 0
    then have "c0 < x" using Cons.prems(4) x by simp
    then show ?thesis using s by simp
  next
    case (Suc k')
    have le: "x \<le> c0" using Cons.prems(3) [rule_format, of 0] Suc x by simp
    have "k' < length cs'" using Cons.prems(2) Suc x by simp
    moreover have "\<forall>j<k'. (x # cs') ! Suc j \<le> (x # cs') ! j"
    proof (intro allI impI)
      fix j assume "j < k'"
      then have "Suc j < k" using Suc by simp
      then show "(x # cs') ! Suc j \<le> (x # cs') ! j"
        using Cons.prems(3) [rule_format, of "Suc j"] x by simp
    qed
    moreover have "(x # cs') ! k' < (x # cs') ! Suc k'"
      using Cons.prems(4) Suc x by simp
    ultimately have "prefix_iteration U ops full rest p1 x = Inl AssertionError"
      using Cons.IH [OF r] by blast
    then show ?thesis using s le by simp
  qed
qed

text \<open>
  Claim C6. \<open>c0\<close> is the count of the blank search and \<open>search_outcomes\<close> lists what
  the searches with the prefixes of length 1, 2, ... return. The loop runs to its end
  exactly when every search returns a count and no count is larger than the one before
  it (the blank search's count before the first); it then holds the last count. When
  the first counts do not grow and the next one does, the loop fails there with
  \<open>AssertionError\<close>, whatever the later searches would return.
\<close>

theorem model_prefix_loop_never_grows:
  "((\<exists>p'. model_prefix_loop U ops full p c0 = Inr (c, p')) \<longleftrightarrow>
      (\<exists>cs. search_outcomes U ops full [1..<Suc (length full)] p = map Inr cs \<and>
            length cs = length full \<and>
            (\<forall>k<length cs. (c0 # cs) ! Suc k \<le> (c0 # cs) ! k) \<and> c = last (c0 # cs))) \<and>
   (\<forall>cs others k.
      search_outcomes U ops full [1..<Suc (length full)] p = map Inr cs @ others \<and> k < length cs \<and>
      (\<forall>j<k. (c0 # cs) ! Suc j \<le> (c0 # cs) ! j) \<and> (c0 # cs) ! k < (c0 # cs) ! Suc k
      \<longrightarrow> model_prefix_loop U ops full p c0 = Inl AssertionError)"
proof (rule conjI)
  have len: "length [1..<Suc (length full)] = length full" by (simp del: upt_Suc)
  show "(\<exists>p'. model_prefix_loop U ops full p c0 = Inr (c, p')) \<longleftrightarrow>
      (\<exists>cs. search_outcomes U ops full [1..<Suc (length full)] p = map Inr cs \<and>
            length cs = length full \<and>
            (\<forall>k<length cs. (c0 # cs) ! Suc k \<le> (c0 # cs) ! k) \<and> c = last (c0 # cs))"
    using prefix_iteration_pass [of U ops full "[1..<Suc (length full)]" p c0 c]
    by (simp only: model_prefix_loop_def chain_def len)
  show "\<forall>cs others k.
      search_outcomes U ops full [1..<Suc (length full)] p = map Inr cs @ others \<and> k < length cs \<and>
      (\<forall>j<k. (c0 # cs) ! Suc j \<le> (c0 # cs) ! j) \<and> (c0 # cs) ! k < (c0 # cs) ! Suc k
      \<longrightarrow> model_prefix_loop U ops full p c0 = Inl AssertionError"
  proof (intro allI impI, elim conjE)
    fix cs others k
    assume "search_outcomes U ops full [1..<Suc (length full)] p = map Inr cs @ others"
      and "k < length cs"
      and "\<forall>j<k. (c0 # cs) ! Suc j \<le> (c0 # cs) ! j"
      and "(c0 # cs) ! k < (c0 # cs) ! Suc k"
    then show "model_prefix_loop U ops full p c0 = Inl AssertionError"
      unfolding model_prefix_loop_def by (rule prefix_iteration_fail)
  qed
qed

lemma demo_search_1:
  "search_by_model latin1 demo_model_page p [97] = Inr (3, [97])"
  by (simp add: search_by_model_def demo_model_page_def get_total_record_count_def
      total_record_count_re_def literal_def ustr_def strip_def latin1_def latin1_isspace_def
      latin1_decimal_def isdecimal_def re_match_def py_int_def int_strip_def int_space_def
      int_digits_def max_str_digits_def)

lemma demo_search_2:
  "search_by_model latin1 demo_model_page p [97, 66] = Inr (2, [97, 66])"
  by (simp add: search_by_model_def demo_model_page_def get_total_record_count_def
      total_record_count_re_def literal_def ustr_def strip_def latin1_def latin1_isspace_def
      latin1_decimal_def isdecimal_def re_match_def py_int_def int_strip_def int_space_def
      int_digits_def max_str_digits_def)

lemma demo_prefixes:
  "build_alternating_case_prefix latin1 (ustr ''ab'') 1 = [97]"
  "build_alternating_case_prefix latin1 (ustr ''ab'') 2 = [97, 66]"
  by (simp_all add: build_alternating_case_prefix_def slice_to_def ustr_def latin1_def
      latin1_isalpha_def latin1_lower_def latin1_upper_def)

theorem model_prefix_loop_never_grows_witness:
  "search_outcomes latin1 demo_model_page (ustr ''ab'') [1..<Suc (length (ustr ''ab''))] [] = [Inr 3, Inr 2] \<and>
   (\<exists>p'. model_prefix_loop latin1 demo_model_page (ustr ''ab'') [] 5 = Inr (2, p')) \<and>
   model_prefix_loop latin1 demo_model_page (ustr ''ab'') [] 2 = Inl AssertionError"
proof -
  have idx: "[1..<Suc (length (ustr ''ab''))] = [1, 2]"
    by (simp add: ustr_def upt_rec)
  have o: "search_outcomes latin1 demo_model_page (ustr ''ab'') [1..<Suc (length (ustr ''ab''))] [] = map Inr [3, 2]"
    by (simp only: idx) (simp add: demo_prefixes demo_search_1 demo_search_2)
  have l: "length (ustr ''ab'') = 2" by (simp add: ustr_def)
  have ch: "\<forall>k<length [3, 2 :: int]. (5 # [3, 2 :: int]) ! Suc k \<le> (5 # [3, 2]) ! k"
    by (simp add: All_less_Suc)
  have a: "\<exists>cs. search_outcomes latin1 demo_model_page (ustr ''ab'') [1..<Suc (length (ustr ''ab''))] [] = map Inr cs \<and>
            length cs = length (ustr ''ab'') \<and>
            (\<forall>k<length cs. (5 # cs) ! Suc k \<le> (5 # cs) ! k) \<and> (2::int) = last (5 # cs)"
    using o l ch by (intro exI [of _ "[3, 2]"]) simp
  have b: "search_outcomes latin1 demo_model_page (ustr ''ab'') [1..<Suc (length (ustr ''ab''))] [] = map Inr [3, 2] @ [] \<and>
      0 < length [3, 2 :: int] \<and>
      (\<forall>j<0. (2 # [3, 2 :: int]) ! Suc j \<le> (2 # [3, 2]) ! j) \<and> (2 # [3, 2 :: int]) ! 0 < (2 # [3, 2]) ! Suc 0"
    using o by simp
  note t = model_prefix_loop_never_grows [of latin1 demo_model_page "ustr ''ab''" "[]"]
  have "\<exists>p'. model_prefix_loop latin1 demo_model_page (ustr ''ab'') [] 5 = Inr (2, p')"
    using t [of 5 2] a by blast
  moreover have "model_prefix_loop latin1 demo_model_page (ustr ''ab'') [] 2 = Inl AssertionError"
    using t [of 2 2] b by blast
  ultimately show ?thesis using o by simp
qed

section \<open>Properties of the matcher and of get_total_record_count\<close>

lemma concat_map_concat:
  "concat (map f (concat (map h xs))) = concat (map (\<lambda>x. concat (map f (h x))) xs)"
  by (induction xs) simp_all

lemma branches_Seq_assoc:
  "branches U (Seq (Seq a b) r) st = branches U (Seq a (Seq b r)) st"
proof -
  have "branches U (Seq b r) = (\<lambda>x. concat (map (branches U r) (branches U b x)))"
    by (rule ext) simp
  then show ?thesis
    by (simp add: concat_map_concat)
qed

lemma branches_Lit_Seq:
  "branches U (Seq (Atom (Lit p)) r) (s, g) =
     (case s of [] \<Rightarrow> [] | c # cs \<Rightarrow> if c = p then branches U r (cs, g) else [])"
  by (simp split: list.splits)

lemma branches_literal:
  "branches U (Seq (literal cs) r) (s, g) =
     (if prefix (ustr cs) s then branches U r (drop (length cs) s, g) else [])"
proof (induction cs arbitrary: s)
  case Nil
  show ?case by (simp add: literal_def ustr_def)
next
  case (Cons c cs)
  have l: "literal (c # cs) = Seq (Atom (Lit (of_char c))) (literal cs)"
    by (simp add: literal_def)
  have "branches U (Seq (literal (c # cs)) r) (s, g) =
      branches U (Seq (Atom (Lit (of_char c))) (Seq (literal cs) r)) (s, g)"
    unfolding l by (rule branches_Seq_assoc)
  also have "\<dots> = (case s of [] \<Rightarrow> [] | x # xs \<Rightarrow>
      if x = of_char c then branches U (Seq (literal cs) r) (xs, g) else [])"
    by (rule branches_Lit_Seq)
  also have "\<dots> = (if prefix (ustr (c # cs)) s then branches U r (drop (length (c # cs)) s, g) else [])"
  proof (cases s)
    case Nil
    then show ?thesis by (simp add: ustr_def)
  next
    case (Cons x xs)
    show ?thesis
      unfolding Cons list.case Cons.IH
      by (auto simp: ustr_def)
  qed
  finally show ?case .
qed

lemma concat_rev_upt_last:
  "(\<And>k. 1 \<le> k \<Longrightarrow> k < n \<Longrightarrow> f k = []) \<Longrightarrow>
   concat (map f (rev [1..<Suc n])) = (if n = 0 then [] else f n)"
proof (induction n)
  case 0
  show ?case by simp
next
  case (Suc n)
  have "concat (map f (rev [1..<Suc n])) = (if n = 0 then [] else f n)"
    using Suc.prems by (intro Suc.IH) simp
  moreover have "n \<noteq> 0 \<Longrightarrow> f n = []" using Suc.prems [of n] by simp
  ultimately show ?case by simp
qed

lemma atom_matches_Digit: "atom_matches U Digit = isdecimal U"
  by (rule ext) simp

lemma atom_matches_Space: "atom_matches U Space = isspace U"
  by (rule ext) simp

lemma branches_digits_group:
  "branches U (Group name (OneOrMore Digit)) (s, g) =
     map (\<lambda>k. (drop k s, (name, take k s) # g))
       (rev [1..<Suc (length (takeWhile (isdecimal U) s))])"
proof -
  let ?m = "length (takeWhile (isdecimal U) s)"
  have m: "?m \<le> length s" by (rule length_takeWhile_le)
  have "\<And>k. k \<in> set (rev [1..<Suc ?m]) \<Longrightarrow> length s - length (drop k s) = k"
    using m by auto
  then have "map (\<lambda>k. (drop k s, (name, take (length s - length (drop k s)) s) # g)) (rev [1..<Suc ?m]) =
        map (\<lambda>k. (drop k s, (name, take k s) # g)) (rev [1..<Suc ?m])"
    by (intro map_cong) auto
  then show ?thesis
    by (simp add: atom_matches_Digit comp_def del: upt_Suc)
qed

lemma branches_digits_group_Nil:
  "takeWhile (isdecimal U) s = [] \<Longrightarrow>
   branches U (Group name (OneOrMore Digit)) (s, g) = []"
  by (simp only: branches_digits_group) simp

lemma branches_digits_group_hd:
  "takeWhile (isdecimal U) s \<noteq> [] \<Longrightarrow>
   \<exists>others. branches U (Group name (OneOrMore Digit)) (s, g) =
     (dropWhile (isdecimal U) s, (name, takeWhile (isdecimal U) s) # g) # others"
proof -
  let ?P = "isdecimal U"
  let ?m = "length (takeWhile ?P s)"
  assume "takeWhile ?P s \<noteq> []"
  then obtain m' where m': "?m = Suc m'" by (cases ?m) auto
  have "rev [1..<Suc ?m] = ?m # rev [1..<?m]" unfolding m' by simp
  moreover have "drop ?m s = dropWhile ?P s"
    by (rule dropWhile_eq_drop [symmetric])
  moreover have "take ?m s = takeWhile ?P s"
    by (rule takeWhile_eq_take [symmetric])
  ultimately show ?thesis
    by (simp only: branches_digits_group) simp
qed

lemma branches_space_then:
  assumes "plain_digits U"
  shows "branches U (Seq (OneOrMore Space) (Group name (OneOrMore Digit))) (s, g) =
     (if takeWhile (isspace U) s = [] then []
      else branches U (Group name (OneOrMore Digit)) (dropWhile (isspace U) s, g))"
proof -
  let ?n = "length (takeWhile (isspace U) s)"
  let ?f = "\<lambda>k. branches U (Group name (OneOrMore Digit)) (drop k s, g)"
  have e: "\<And>k. 1 \<le> k \<Longrightarrow> k < ?n \<Longrightarrow> ?f k = []"
  proof -
    fix k assume k: "1 \<le> k" "k < ?n"
    have kl: "k < length s" using k(2) length_takeWhile_le [of "isspace U" s] by simp
    have "s ! k = takeWhile (isspace U) s ! k" using k(2) by (simp add: takeWhile_nth)
    then have "isspace U (s ! k)" using k(2) nth_mem [of k "takeWhile (isspace U) s"]
      by (metis set_takeWhileD)
    then have "\<not> isdecimal U (s ! k)" using assms by (auto simp: plain_digits_def)
    moreover have "drop k s = s ! k # drop (Suc k) s" using kl by (simp add: Cons_nth_drop_Suc)
    ultimately have "takeWhile (isdecimal U) (drop k s) = []" by simp
    then show "?f k = []" by (rule branches_digits_group_Nil)
  qed
  have "branches U (Seq (OneOrMore Space) (Group name (OneOrMore Digit))) (s, g) =
      concat (map ?f (rev [1..<Suc ?n]))"
    by (simp add: atom_matches_Space comp_def del: upt_Suc branches.simps(6))
  also have "\<dots> = (if ?n = 0 then [] else ?f ?n)"
    using e by (rule concat_rev_upt_last)
  also have "\<dots> = (if takeWhile (isspace U) s = [] then []
      else branches U (Group name (OneOrMore Digit)) (dropWhile (isspace U) s, g))"
    using dropWhile_eq_drop [of "isspace U" s] by (simp del: branches.simps)
  finally show ?thesis .
qed

lemma lit_len: "length lit = 18" by (simp add: lit_def ustr_def)

lemma re_match_trc:
  assumes "plain_digits U"
  shows "re_match U total_record_count_re s =
     (if prefix lit s \<and> takeWhile (isspace U) (drop 18 s) \<noteq> [] \<and>
         takeWhile (isdecimal U) (dropWhile (isspace U) (drop 18 s)) \<noteq> []
      then Some (dropWhile (isdecimal U) (dropWhile (isspace U) (drop 18 s)),
                 [(''1'', takeWhile (isdecimal U) (dropWhile (isspace U) (drop 18 s)))])
      else None)"
proof -
  let ?s1 = "drop 18 s"
  let ?s2 = "dropWhile (isspace U) ?s1"
  let ?G = "Group ''1'' (OneOrMore Digit)"
  have b: "branches U total_record_count_re (s, []) =
      (if prefix lit s then
         (if takeWhile (isspace U) ?s1 = [] then [] else branches U ?G (?s2, []))
       else [])"
  proof -
    have l18: "length ''Total Record Count'' = 18" by simp
    have "branches U total_record_count_re (s, []) =
        (if prefix lit s
         then branches U (Seq (OneOrMore Space) ?G) (drop (length ''Total Record Count'') s, [])
         else [])"
      unfolding total_record_count_re_def lit_def by (rule branches_literal)
    then show ?thesis
      by (simp only: l18 branches_space_then [OF assms])
  qed
  show ?thesis
  proof (cases "prefix lit s \<and> takeWhile (isspace U) ?s1 \<noteq> []")
    case False
    then show ?thesis unfolding re_match_def b by auto
  next
    case True
    show ?thesis
    proof (cases "takeWhile (isdecimal U) ?s2 = []")
      case e: True
      have "branches U ?G (?s2, []) = []" using e by (rule branches_digits_group_Nil)
      then show ?thesis unfolding re_match_def b using True e by simp
    next
      case ne: False
      obtain others where "branches U ?G (?s2, []) =
          (dropWhile (isdecimal U) ?s2, [(''1'', takeWhile (isdecimal U) ?s2)]) # others"
        using branches_digits_group_hd [OF ne] by blast
      then show ?thesis unfolding re_match_def b using True ne by simp
    qed
  qed
qed

lemma re_search_Some:
  "re_search U r s = Some st \<longleftrightarrow>
     (\<exists>i\<le>length s. re_match U r (drop i s) = Some st \<and> (\<forall>j<i. re_match U r (drop j s) = None))"
proof (induction s)
  case Nil
  show ?case by simp
next
  case (Cons c cs)
  show ?case
  proof (cases "re_match U r (c # cs)")
    case (Some st')
    have "(\<exists>i\<le>length (c # cs). re_match U r (drop i (c # cs)) = Some st \<and>
        (\<forall>j<i. re_match U r (drop j (c # cs)) = None)) \<longleftrightarrow> st' = st"
    proof
      assume "\<exists>i\<le>length (c # cs). re_match U r (drop i (c # cs)) = Some st \<and>
        (\<forall>j<i. re_match U r (drop j (c # cs)) = None)"
      then obtain i where i: "re_match U r (drop i (c # cs)) = Some st"
          "\<forall>j<i. re_match U r (drop j (c # cs)) = None" by blast
      have "i = 0"
      proof (rule ccontr)
        assume "i \<noteq> 0"
        then have "re_match U r (drop 0 (c # cs)) = None" using i(2) by blast
        then show False using Some by simp
      qed
      then show "st' = st" using i(1) Some by simp
    next
      assume "st' = st"
      then have "re_match U r (drop 0 (c # cs)) = Some st \<and>
        (\<forall>j<0. re_match U r (drop j (c # cs)) = None)" using Some by simp
      then show "\<exists>i\<le>length (c # cs). re_match U r (drop i (c # cs)) = Some st \<and>
        (\<forall>j<i. re_match U r (drop j (c # cs)) = None)" by blast
    qed
    then show ?thesis using Some by auto
  next
    case None
    have "(\<exists>i\<le>length (c # cs). re_match U r (drop i (c # cs)) = Some st \<and>
        (\<forall>j<i. re_match U r (drop j (c # cs)) = None)) \<longleftrightarrow>
      (\<exists>i\<le>length cs. re_match U r (drop i cs) = Some st \<and> (\<forall>j<i. re_match U r (drop j cs) = None))"
    proof
      assume "\<exists>i\<le>length (c # cs). re_match U r (drop i (c # cs)) = Some st \<and>
        (\<forall>j<i. re_match U r (drop j (c # cs)) = None)"
      then obtain i where i: "i \<le> length (c # cs)" "re_match U r (drop i (c # cs)) = Some st"
          "\<forall>j<i. re_match U r (drop j (c # cs)) = None" by blast
      have "i \<noteq> 0" using i(2) None by (cases i) auto
      then obtain i' where i': "i = Suc i'" by (cases i) auto
      have "\<forall>j<i'. re_match U r (drop j cs) = None"
      proof (intro allI impI)
        fix j assume "j < i'"
        then have "Suc j < i" using i' by simp
        then have "re_match U r (drop (Suc j) (c # cs)) = None" using i(3) by blast
        then show "re_match U r (drop j cs) = None" by simp
      qed
      then show "\<exists>i\<le>length cs. re_match U r (drop i cs) = Some st \<and>
          (\<forall>j<i. re_match U r (drop j cs) = None)"
        using i(1,2) i' by auto
    next
      assume "\<exists>i\<le>length cs. re_match U r (drop i cs) = Some st \<and>
          (\<forall>j<i. re_match U r (drop j cs) = None)"
      then obtain i where i: "i \<le> length cs" "re_match U r (drop i cs) = Some st"
          "\<forall>j<i. re_match U r (drop j cs) = None" by blast
      have "\<forall>j<Suc i. re_match U r (drop j (c # cs)) = None"
      proof (intro allI impI)
        fix j assume j: "j < Suc i"
        show "re_match U r (drop j (c # cs)) = None"
        proof (cases j)
          case 0
          then show ?thesis using None by simp
        next
          case (Suc j')
          then show ?thesis using i(3) j by simp
        qed
      qed
      moreover have "Suc i \<le> length (c # cs)" "re_match U r (drop (Suc i) (c # cs)) = Some st"
        using i by simp_all
      ultimately show "\<exists>i\<le>length (c # cs). re_match U r (drop i (c # cs)) = Some st \<and>
        (\<forall>j<i. re_match U r (drop j (c # cs)) = None)" by blast
    qed
    then show ?thesis using None Cons.IH by simp
  qed
qed

lemma re_search_None:
  "re_search U r s = None \<longleftrightarrow> (\<forall>i\<le>length s. re_match U r (drop i s) = None)"
proof (induction s)
  case Nil
  show ?case by simp
next
  case (Cons c cs)
  have "(\<forall>i\<le>length (c # cs). re_match U r (drop i (c # cs)) = None) \<longleftrightarrow>
      re_match U r (c # cs) = None \<and> (\<forall>i\<le>length cs. re_match U r (drop i cs) = None)"
  proof
    assume a: "\<forall>i\<le>length (c # cs). re_match U r (drop i (c # cs)) = None"
    have "re_match U r (drop 0 (c # cs)) = None" using a by blast
    moreover have "\<forall>i\<le>length cs. re_match U r (drop i cs) = None"
    proof (intro allI impI)
      fix i assume "i \<le> length cs"
      then have "re_match U r (drop (Suc i) (c # cs)) = None" using a by auto
      then show "re_match U r (drop i cs) = None" by simp
    qed
    ultimately show "re_match U r (c # cs) = None \<and> (\<forall>i\<le>length cs. re_match U r (drop i cs) = None)"
      by simp
  next
    assume a: "re_match U r (c # cs) = None \<and> (\<forall>i\<le>length cs. re_match U r (drop i cs) = None)"
    show "\<forall>i\<le>length (c # cs). re_match U r (drop i (c # cs)) = None"
    proof (intro allI impI)
      fix i assume i: "i \<le> length (c # cs)"
      show "re_match U r (drop i (c # cs)) = None"
        using a i by (cases i) auto
    qed
  qed
  then show ?case using Cons.IH by (simp split: option.splits)
qed

lemma prefix_lit_drop: "prefix lit x \<Longrightarrow> x = lit @ drop 18 x"
  using lit_len by (auto simp: prefix_def)

lemma count_at_iff:
  assumes pd: "plain_digits U" and i: "i \<le> length t"
  shows "count_at U t i ds \<longleftrightarrow>
     prefix lit (drop i t) \<and> takeWhile (isspace U) (drop 18 (drop i t)) \<noteq> [] \<and>
     takeWhile (isdecimal U) (dropWhile (isspace U) (drop 18 (drop i t))) = ds \<and> ds \<noteq> []"
proof
  assume "count_at U t i ds"
  then obtain ws rest where d: "drop i t = lit @ ws @ ds @ rest"
      and ws: "ws \<noteq> []" "list_all (isspace U) ws"
      and ds: "ds \<noteq> []" "list_all (isdecimal U) ds"
      and rest: "case rest of [] \<Rightarrow> True | c # _ \<Rightarrow> \<not> isdecimal U c"
    unfolding count_at_def lit_def by blast
  obtain c cs where c: "ds = c # cs" using ds(1) by (cases ds) auto
  have "isdecimal U c" using ds(2) c by simp
  then have ns: "\<not> isspace U c" using pd by (auto simp: plain_digits_def)
  have s1: "drop 18 (drop i t) = ws @ ds @ rest" using d lit_len by simp
  have tw: "takeWhile (isspace U) (ws @ ds @ rest) = ws"
    using ws(2) ns c by (simp add: takeWhile_append2 list_all_iff)
  have dw: "dropWhile (isspace U) (ws @ ds @ rest) = ds @ rest"
    using ws(2) ns c by (simp add: dropWhile_append2 list_all_iff)
  have td: "takeWhile (isdecimal U) (ds @ rest) = ds"
    using ds(2) rest by (cases rest) (simp_all add: takeWhile_append2 list_all_iff)
  have p: "prefix lit (drop i t)" using d by simp
  have a2: "takeWhile (isspace U) (drop 18 (drop i t)) = ws" by (simp only: s1 tw)
  have a3: "takeWhile (isdecimal U) (dropWhile (isspace U) (drop 18 (drop i t))) = ds"
    by (simp only: s1 dw td)
  show "prefix lit (drop i t) \<and> takeWhile (isspace U) (drop 18 (drop i t)) \<noteq> [] \<and>
     takeWhile (isdecimal U) (dropWhile (isspace U) (drop 18 (drop i t))) = ds \<and> ds \<noteq> []"
    using p a2 a3 ws(1) ds(1) by simp
next
  let ?s1 = "drop 18 (drop i t)"
  let ?ws = "takeWhile (isspace U) ?s1"
  let ?s2 = "dropWhile (isspace U) ?s1"
  let ?rest = "dropWhile (isdecimal U) ?s2"
  assume a: "prefix lit (drop i t) \<and> ?ws \<noteq> [] \<and> takeWhile (isdecimal U) ?s2 = ds \<and> ds \<noteq> []"
  have d: "drop i t = lit @ ?s1" using a by (intro prefix_lit_drop) simp
  have s1: "?s1 = ?ws @ ?s2" by simp
  have s2: "?s2 = ds @ ?rest" using a by (metis takeWhile_dropWhile_id)
  have e: "drop i t = ustr ''Total Record Count'' @ ?ws @ ds @ ?rest"
    using d s1 s2 unfolding lit_def by metis
  have w: "list_all (isspace U) ?ws" by (simp add: list_all_iff) (metis set_takeWhileD)
  have dd: "list_all (isdecimal U) ds" using a by (auto simp: list_all_iff dest: set_takeWhileD)
  have r: "case ?rest of [] \<Rightarrow> True | c # _ \<Rightarrow> \<not> isdecimal U c"
    using hd_dropWhile [of "isdecimal U" ?s2] by (cases ?rest) (auto simp del: dropWhile_eq_Nil_conv)
  show "count_at U t i ds"
    unfolding count_at_def using i e a w dd r by blast
qed

lemma count_at_le: "count_at U t i ds \<Longrightarrow> i \<le> length t"
  by (auto simp: count_at_def)

lemma re_match_count_at:
  assumes pd: "plain_digits U" and i: "i \<le> length t"
  shows "(\<exists>rest. re_match U total_record_count_re (drop i t) = Some (rest, [(''1'', ds)])) \<longleftrightarrow>
         count_at U t i ds"
  unfolding count_at_iff [OF pd i] re_match_trc [OF pd] by auto

lemma re_match_None_count_at:
  assumes pd: "plain_digits U" and i: "i \<le> length t"
  shows "re_match U total_record_count_re (drop i t) = None \<longleftrightarrow> (\<forall>ds. \<not> count_at U t i ds)"
  unfolding count_at_iff [OF pd i] re_match_trc [OF pd] by auto

lemma parse_digits_all:
  "list_all (isdecimal U) ds \<Longrightarrow>
   parse_digits U ds acc b =
     (if ds = [] \<and> \<not> b then None
      else Some (foldl (\<lambda>acc c. 10 * acc + (case decimal U c of Some d \<Rightarrow> d | None \<Rightarrow> 0)) acc ds))"
  by (induction ds arbitrary: acc b) (auto simp: isdecimal_def)

lemma dropWhile_hd: "xs \<noteq> [] \<Longrightarrow> \<not> P (hd xs) \<Longrightarrow> dropWhile P xs = xs"
  by (cases xs) auto

lemma strip_plain:
  assumes "s \<noteq> []" "\<not> isspace U (hd s)" "\<not> isspace U (last s)"
  shows "strip U s = s"
proof -
  have 1: "dropWhile (isspace U) s = s" using assms(1,2) by (rule dropWhile_hd)
  have "rev s \<noteq> []" "\<not> isspace U (hd (rev s))" using assms(1,3) by (simp_all add: hd_rev)
  then have 2: "dropWhile (isspace U) (rev s) = rev s" by (rule dropWhile_hd)
  show ?thesis by (simp add: strip_def 1 2)
qed

lemma int_strip_plain:
  assumes "s \<noteq> []" "\<not> int_space U (hd s)" "\<not> int_space U (last s)"
  shows "int_strip U s = s"
proof -
  have 1: "dropWhile (int_space U) s = s" using assms(1,2) by (rule dropWhile_hd)
  have "rev s \<noteq> []" "\<not> int_space U (hd (rev s))" using assms(1,3) by (simp_all add: hd_rev)
  then have 2: "dropWhile (int_space U) (rev s) = rev s" by (rule dropWhile_hd)
  show ?thesis by (simp add: int_strip_def 1 2)
qed

lemma filter_all: "list_all P xs \<Longrightarrow> filter P xs = xs"
  by (induction xs) auto

lemma py_int_digits:
  assumes pd: "plain_digits U" and ne: "ds \<noteq> []" and all: "list_all (isdecimal U) ds"
  shows "py_int U ds =
     (if length ds \<le> max_str_digits then Some (int (dec_value U ds)) else None)"
proof -
  have "isdecimal U (hd ds)" "isdecimal U (last ds)"
    using ne all by (auto simp: list_all_iff)
  then have h: "\<not> int_space U (hd ds)" "\<not> int_space U (last ds)" "hd ds \<noteq> 43" "hd ds \<noteq> 45"
    using pd by (auto simp: plain_digits_def)
  have s: "int_strip U ds = ds" using ne h(1,2) by (rule int_strip_plain)
  obtain c cs where c: "ds = c # cs" using ne by (cases ds) auto
  have p: "parse_digits U (c # cs) 0 False = Some (dec_value U (c # cs))"
    using all unfolding c dec_value_def by (subst parse_digits_all) simp_all
  have f: "filter (isdecimal U) (c # cs) = c # cs"
    using all c filter_all [of "isdecimal U" ds] by simp
  have "int_digits U (c # cs) =
      (if length (c # cs) \<le> max_str_digits then Some (dec_value U (c # cs)) else None)"
    by (simp only: int_digits_def p f option.case) auto
  moreover have "int_strip U (c # cs) = c # cs" using s c by simp
  ultimately show ?thesis
    using h(3,4) c by (simp add: py_int_def)
qed

lemma get_total_record_count_at_first:
  assumes pd: "plain_digits U"
      and c: "count_at U (strip U text) i ds"
      and b: "\<forall>j<i. \<forall>ds'. \<not> count_at U (strip U text) j ds'"
  shows "get_total_record_count U text =
     (if length ds \<le> max_str_digits then Inr (int (dec_value U ds)) else Inl ValueError)"
proof -
  let ?t = "strip U text"
  have i: "i \<le> length ?t" using c by (rule count_at_le)
  obtain rest where m: "re_match U total_record_count_re (drop i ?t) = Some (rest, [(''1'', ds)])"
    using re_match_count_at [OF pd i] c by blast
  have "\<forall>j<i. re_match U total_record_count_re (drop j ?t) = None"
    using b i re_match_None_count_at [OF pd] by simp
  then have s: "re_search U total_record_count_re ?t = Some (rest, [(''1'', ds)])"
    using m i re_search_Some [of U total_record_count_re ?t] by blast
  have "ds \<noteq> []" "list_all (isdecimal U) ds" using c by (auto simp: count_at_def)
  then have "py_int U ds =
      (if length ds \<le> max_str_digits then Some (int (dec_value U ds)) else None)"
    by (rule py_int_digits [OF pd])
  then show ?thesis by (simp add: get_total_record_count_def s)
qed

lemma plain_digits_latin1: "plain_digits latin1"
  by (auto simp: plain_digits_def isdecimal_def int_space_def latin1_def latin1_decimal_def
      latin1_isspace_def split: if_splits)

text \<open>
  Claim C5, as stated, fails: \<open>int\<close> refuses a string of more than 4300 digits with
  \<open>ValueError\<close>. The text \<open>Total Record Count\<close>, a space and 4301 times the digit 9 holds
  the pattern at offset 0, and the function raises \<open>ValueError\<close>: it neither returns a
  value nor raises \<open>AssertionError\<close>.
\<close>

theorem get_total_record_count_digit_limit_counterexample:
  "count_at latin1 (strip latin1 (ustr ''Total Record Count '' @ replicate 4301 57)) 0
     (replicate 4301 57) \<and>
   get_total_record_count latin1 (ustr ''Total Record Count '' @ replicate 4301 57) = Inl ValueError"
proof -
  let ?text = "ustr ''Total Record Count '' @ replicate 4301 57"
  have t: "?text = ustr ''Total Record Count'' @ [32] @ replicate 4301 57 @ []"
    by (simp add: ustr_def)
  have "?text \<noteq> []" "\<not> isspace latin1 (hd ?text)" "\<not> isspace latin1 (last ?text)"
    by (simp_all add: ustr_def latin1_def latin1_isspace_def)
  then have s: "strip latin1 ?text = ?text" by (rule strip_plain)
  have d: "list_all (isdecimal latin1) (replicate 4301 57)"
    by (simp add: list_all_iff isdecimal_def latin1_def latin1_decimal_def)
  have c: "count_at latin1 (strip latin1 ?text) 0 (replicate 4301 57)"
    unfolding count_at_def s
    by (intro exI [of _ "[32]"] exI [of _ "[]"])
       (simp add: t d, simp add: latin1_def latin1_isspace_def)
  have "get_total_record_count latin1 ?text =
      (if length (replicate 4301 (57::nat)) \<le> max_str_digits
       then Inr (int (dec_value latin1 (replicate 4301 57))) else Inl ValueError)"
    by (rule get_total_record_count_at_first [OF plain_digits_latin1 c]) simp
  then show ?thesis
    using c by (simp add: max_str_digits_def)
qed

lemma get_total_record_count_spec:
  assumes pd: "plain_digits U"
  shows "(get_total_record_count U text = Inl AssertionError \<longleftrightarrow>
            \<not> (\<exists>i ds. count_at U (strip U text) i ds)) \<and>
         (\<forall>i ds. count_at U (strip U text) i ds \<and> (\<forall>j<i. \<forall>ds'. \<not> count_at U (strip U text) j ds')
            \<longrightarrow> get_total_record_count U text =
                  (if length ds \<le> max_str_digits then Inr (int (dec_value U ds))
                   else Inl ValueError)) \<and>
         ((\<exists>i ds. count_at U (strip U text) i ds) \<longrightarrow>
            (\<exists>n. get_total_record_count U text = Inr n) \<or>
            get_total_record_count U text = Inl ValueError)"
proof -
  let ?t = "strip U text"
  have first: "get_total_record_count U text =
      (if length ds \<le> max_str_digits then Inr (int (dec_value U ds)) else Inl ValueError)"
    if "count_at U ?t i ds" and "\<forall>j<i. \<forall>ds'. \<not> count_at U ?t j ds'" for i ds
    using that by (intro get_total_record_count_at_first [OF pd])
  have none: "get_total_record_count U text = Inl AssertionError \<longleftrightarrow>
      \<not> (\<exists>i ds. count_at U ?t i ds)"
  proof -
    have "get_total_record_count U text = Inl AssertionError \<longleftrightarrow>
        re_search U total_record_count_re ?t = None"
      by (auto simp: get_total_record_count_def Let_def split: option.splits)
    also have "\<dots> \<longleftrightarrow> (\<forall>i\<le>length ?t. re_match U total_record_count_re (drop i ?t) = None)"
      by (rule re_search_None)
    also have "\<dots> \<longleftrightarrow> (\<forall>i\<le>length ?t. \<forall>ds. \<not> count_at U ?t i ds)"
      using re_match_None_count_at [OF pd] by simp
    also have "\<dots> \<longleftrightarrow> \<not> (\<exists>i ds. count_at U ?t i ds)"
      using count_at_le by blast
    finally show ?thesis .
  qed
  have some: "(\<exists>n. get_total_record_count U text = Inr n) \<or>
      get_total_record_count U text = Inl ValueError" if "\<exists>i ds. count_at U ?t i ds"
  proof -
    from that have "\<exists>i. \<exists>ds. count_at U ?t i ds" .
    then obtain i where "(\<exists>ds. count_at U ?t i ds) \<and> (\<forall>j<i. \<not> (\<exists>ds. count_at U ?t j ds))"
      using exists_least_iff [of "\<lambda>i. \<exists>ds. count_at U ?t i ds"] by blast
    then obtain ds where "count_at U ?t i ds" "\<forall>j<i. \<forall>ds'. \<not> count_at U ?t j ds'" by blast
    then have "get_total_record_count U text =
        (if length ds \<le> max_str_digits then Inr (int (dec_value U ds)) else Inl ValueError)"
      by (rule first)
    then show ?thesis by (cases "length ds \<le> max_str_digits") auto
  qed
  show ?thesis using first none some by blast
qed

lemma get_total_record_count_invoice_date_eq:
  "get_total_record_count_invoice_date U text = get_total_record_count U text"
  by (simp add: get_total_record_count_invoice_date_def get_total_record_count_def)

text \<open>
  Claim C5, amended, for the copies of \<open>test_rsp_model_field.py\<close> and
  \<open>test_rsp_invoice_date_field.py\<close>. For every page text, with \<open>t\<close> the stripped text:
  \<open>get_total_record_count\<close> raises \<open>AssertionError\<close> exactly when \<open>t\<close> has no
  occurrence of \<open>Total Record Count\<close> followed by at least one whitespace character and
  a digit. When it has one, the maximal digit run of the first (leftmost) occurrence
  decides: the function returns the integer value of that run when the run has at most
  4300 digits, and raises \<open>ValueError\<close> when it has more.
\<close>

theorem get_total_record_count_first_run:
  assumes pd: "plain_digits U"
  shows "\<forall>get\<in>{get_total_record_count, get_total_record_count_invoice_date}.
         (get U text = Inl AssertionError \<longleftrightarrow>
            \<not> (\<exists>i ds. count_at U (strip U text) i ds)) \<and>
         (\<forall>i ds. count_at U (strip U text) i ds \<and> (\<forall>j<i. \<forall>ds'. \<not> count_at U (strip U text) j ds')
            \<longrightarrow> get U text =
                  (if length ds \<le> max_str_digits then Inr (int (dec_value U ds))
                   else Inl ValueError)) \<and>
         ((\<exists>i ds. count_at U (strip U text) i ds) \<longrightarrow>
            (\<exists>n. get U text = Inr n) \<or> get U text = Inl ValueError)"
proof (intro ballI)
  fix get
  have e: "get_total_record_count_invoice_date = get_total_record_count"
    by (intro ext) (rule get_total_record_count_invoice_date_eq)
  assume "get \<in> {get_total_record_count, get_total_record_count_invoice_date}"
  then have b: "get = get_total_record_count" using e by blast
  show "(get U text = Inl AssertionError \<longleftrightarrow>
            \<not> (\<exists>i ds. count_at U (strip U text) i ds)) \<and>
         (\<forall>i ds. count_at U (strip U text) i ds \<and> (\<forall>j<i. \<forall>ds'. \<not> count_at U (strip U text) j ds')
            \<longrightarrow> get U text =
                  (if length ds \<le> max_str_digits then Inr (int (dec_value U ds))
                   else Inl ValueError)) \<and>
         ((\<exists>i ds. count_at U (strip U text) i ds) \<longrightarrow>
            (\<exists>n. get U text = Inr n) \<or> get U text = Inl ValueError)"
    unfolding b using pd by (rule get_total_record_count_spec)
qed

theorem get_total_record_count_first_run_witness:
  "plain_digits latin1 \<and>
   count_at latin1 (strip latin1 (ustr '' Total Record Count   123 rows'')) 0 (ustr ''123'') \<and>
   dec_value latin1 (ustr ''123'') = 123 \<and>
   get_total_record_count latin1 (ustr '' Total Record Count   123 rows'') = Inr 123 \<and>
   get_total_record_count_invoice_date latin1 (ustr '' Total Record Count   123 rows'') = Inr 123 \<and>
   get_total_record_count latin1 (ustr ''Total Record Count: 0'') = Inl AssertionError"
proof -
  let ?text = "ustr '' Total Record Count   123 rows''"
  have s: "strip latin1 ?text = ustr ''Total Record Count'' @ [32, 32, 32] @ ustr ''123'' @ ustr '' rows''"
    by (simp add: strip_def ustr_def latin1_def latin1_isspace_def)
  have c: "count_at latin1 (strip latin1 ?text) 0 (ustr ''123'')"
    unfolding count_at_def
    by (intro exI [of _ "[32, 32, 32]"] exI [of _ "ustr '' rows''"])
       (simp add: s, simp add: ustr_def latin1_def latin1_isspace_def latin1_decimal_def isdecimal_def)
  have v: "dec_value latin1 (ustr ''123'') = 123"
    by (simp add: dec_value_def ustr_def latin1_def latin1_decimal_def)
  have l: "length (ustr ''123'') \<le> max_str_digits"
    by (simp add: ustr_def max_str_digits_def)
  have f: "get_total_record_count latin1 (ustr ''Total Record Count: 0'') = Inl AssertionError"
    by (simp add: get_total_record_count_def total_record_count_re_def literal_def ustr_def
        strip_def latin1_def latin1_isspace_def latin1_decimal_def isdecimal_def re_match_def)
  note t = get_total_record_count_first_run [OF plain_digits_latin1, of ?text]
  have "get_total_record_count latin1 ?text =
      (if length (ustr ''123'') \<le> max_str_digits
       then Inr (int (dec_value latin1 (ustr ''123''))) else Inl ValueError)"
    using t c by blast
  then have g1: "get_total_record_count latin1 ?text = Inr 123" using l v by simp
  have "get_total_record_count_invoice_date latin1 ?text =
      (if length (ustr ''123'') \<le> max_str_digits
       then Inr (int (dec_value latin1 (ustr ''123''))) else Inl ValueError)"
    using t c by blast
  then have g2: "get_total_record_count_invoice_date latin1 ?text = Inr 123" using l v by simp
  show ?thesis using plain_digits_latin1 c v g1 g2 f by (intro conjI)
qed

section \<open>Properties of strptime and parse_invoice_date\<close>

lemma try_formats_Inl:
  "try_formats U t fmts = Inl e \<longleftrightarrow> e = AssertionError \<and> (\<forall>fmt\<in>set fmts. strptime U t fmt = None)"
  by (induction fmts) (auto split: option.splits)

lemma try_formats_Inr:
  "(\<exists>d. try_formats U t fmts = Inr d) \<longleftrightarrow> (\<exists>fmt\<in>set fmts. strptime U t fmt \<noteq> None)"
  by (induction fmts) (auto split: option.splits)

lemma try_formats_first:
  "k < length fmts \<Longrightarrow> strptime U t (fmts ! k) = Some d \<Longrightarrow>
   (\<forall>j<k. strptime U t (fmts ! j) = None) \<Longrightarrow> try_formats U t fmts = Inr d"
proof (induction fmts arbitrary: k)
  case Nil
  then show ?case by simp
next
  case (Cons f fmts)
  show ?case
  proof (cases k)
    case 0
    then show ?thesis using Cons.prems by simp
  next
    case (Suc k')
    have "strptime U t f = None" using Cons.prems(3) [rule_format, of 0] Suc by simp
    moreover have "try_formats U t fmts = Inr d"
    proof (rule Cons.IH [of k'])
      show "k' < length fmts" using Cons.prems(1) Suc by simp
      show "strptime U t (fmts ! k') = Some d" using Cons.prems(2) Suc by simp
      show "\<forall>j<k'. strptime U t (fmts ! j) = None"
      proof (intro allI impI)
        fix j assume "j < k'"
        then have "Suc j < k" using Suc by simp
        then show "strptime U t (fmts ! j) = None"
          using Cons.prems(3) [rule_format, of "Suc j"] by simp
      qed
    qed
    ultimately show ?thesis by simp
  qed
qed

lemma try_formats_first_ex:
  "\<exists>fmt\<in>set fmts. strptime U t fmt \<noteq> None \<Longrightarrow>
   \<exists>k d. k < length fmts \<and> strptime U t (fmts ! k) = Some d \<and>
         (\<forall>j<k. strptime U t (fmts ! j) = None) \<and> try_formats U t fmts = Inr d"
proof (induction fmts)
  case Nil
  then show ?case by simp
next
  case (Cons f fmts)
  show ?case
  proof (cases "strptime U t f")
    case (Some d)
    then have "0 < length (f # fmts) \<and> strptime U t ((f # fmts) ! 0) = Some d \<and>
         (\<forall>j<0. strptime U t ((f # fmts) ! j) = None) \<and> try_formats U t (f # fmts) = Inr d"
      by simp
    then show ?thesis by blast
  next
    case None
    then have "\<exists>fmt\<in>set fmts. strptime U t fmt \<noteq> None" using Cons.prems by auto
    then obtain k d where k: "k < length fmts" "strptime U t (fmts ! k) = Some d"
        "\<forall>j<k. strptime U t (fmts ! j) = None" "try_formats U t fmts = Inr d"
      using Cons.IH by blast
    have "\<forall>j<Suc k. strptime U t ((f # fmts) ! j) = None"
    proof (intro allI impI)
      fix j assume "j < Suc k"
      then show "strptime U t ((f # fmts) ! j) = None"
        using None k(3) by (cases j) auto
    qed
    moreover have "Suc k < length (f # fmts)" "strptime U t ((f # fmts) ! Suc k) = Some d"
        "try_formats U t (f # fmts) = Inr d"
      using k None by simp_all
    ultimately show ?thesis by blast
  qed
qed

lemma eval_tomorrow: "parse_invoice_date latin1 (ustr ''tomorrow'') = Inl AssertionError"
  by (simp add: parse_invoice_date_def POSSIBLE_FORMATS_def strptime_def directive_def directive_d_def directive_m_def directive_y_def directive_Y_def
      seqToRE_def f_month_def a_month_def literal_ci_def atom_of_char_def is_letter_def
      chr_lit_def chr_range_def is_space_char_def re_match_def ustr_def strip_def
      latin1_def latin1_isspace_def latin1_decimal_def latin1_ci_eq_def isdecimal_def)

lemma eval_oct: "parse_invoice_date latin1 (ustr ''Oct. 30, 2025'') = Inr \<lparr>year = 2025, month = 10, day = 30\<rparr>"
  by (simp add: parse_invoice_date_def POSSIBLE_FORMATS_def strptime_def directive_def directive_d_def directive_m_def directive_y_def directive_Y_def
      seqToRE_def f_month_def a_month_def literal_ci_def atom_of_char_def is_letter_def
      chr_lit_def chr_range_def is_space_char_def re_match_def ustr_def strip_def
      latin1_def latin1_isspace_def latin1_decimal_def latin1_ci_eq_def isdecimal_def
      apply_group_def py_int_def int_strip_def int_space_def int_digits_def
      max_str_digits_def str_lower_def latin1_lower_def valid_date_def days_in_month_def)

lemma branches_Seq_hd:
  "branches U r1 st = x # xs \<Longrightarrow> branches U r2 x = y # ys \<Longrightarrow>
   \<exists>zs. branches U (Seq r1 r2) st = y # zs"
  by simp

lemma branches_Group_hd:
  "branches U r (s, g) = (s', g') # xs \<Longrightarrow>
   \<exists>zs. branches U (Group name r) (s, g) = (s', (name, take (length s - length s') s) # g') # zs"
  by simp

lemma digit_char_decimal:
  "ascii_digits U \<Longrightarrow> 0 \<le> k \<Longrightarrow> k < 10 \<Longrightarrow> decimal U (digit_char k) = Some (nat k)"
  by (simp add: ascii_digits_def digit_char_def)

lemma digit_char_isdecimal:
  "ascii_digits U \<Longrightarrow> 0 \<le> k \<Longrightarrow> k < 10 \<Longrightarrow> isdecimal U (digit_char k)"
  by (simp add: isdecimal_def digit_char_decimal)

lemma digit_char_not_space:
  "ascii_digits U \<Longrightarrow> 0 \<le> k \<Longrightarrow> k < 10 \<Longrightarrow> \<not> isspace U (digit_char k)"
  by (simp add: ascii_digits_def digit_char_def)

lemma branches_Y:
  assumes "ascii_digits U" "0 \<le> y" "y \<le> 9999"
  shows "branches U directive_Y
           (zfill4 y @ rest, g) = [(rest, (''Y'', zfill4 y) # g)]"
proof -
  have "isdecimal U (digit_char (y div 1000))" "isdecimal U (digit_char (y div 100 mod 10))"
       "isdecimal U (digit_char (y div 10 mod 10))" "isdecimal U (digit_char (y mod 10))"
    using assms by (simp_all add: digit_char_isdecimal)
  then show ?thesis by (simp add: zfill4_def directive_Y_def)
qed

lemma branches_m:
  assumes "1 \<le> m" "m \<le> 12"
  shows "\<exists>zs. branches U
           directive_m
           (zfill2 m @ rest, g) = (rest, (''m'', zfill2 m) # g) # zs"
proof (cases "m < 10")
  case True
  then have "m div 10 = 0" "m mod 10 = m" using assms by presburger+
  then show ?thesis
    using assms True by (auto simp add: zfill2_def digit_char_def chr_lit_def chr_range_def directive_m_def directive_d_def)
next
  case False
  then have "m div 10 = 1" "m mod 10 = m - 10" using assms by presburger+
  then show ?thesis
    using assms False by (simp add: zfill2_def digit_char_def chr_lit_def chr_range_def directive_m_def directive_d_def)
qed

lemma branches_d:
  assumes "ascii_digits U" "1 \<le> d" "d \<le> 31"
  shows "\<exists>zs. branches U
           directive_d
           (zfill2 d @ rest, g) = (rest, (''d'', zfill2 d) # g) # zs"
proof -
  have dec: "isdecimal U (digit_char (d mod 10))"
    using assms by (simp add: digit_char_isdecimal)
  consider "d < 10" | "10 \<le> d \<and> d < 20" | "20 \<le> d \<and> d < 30" | "30 \<le> d" by linarith
  then show ?thesis
  proof cases
    case 1
    then have "d div 10 = 0" "d mod 10 = d" using assms by presburger+
    then show ?thesis
      using assms 1 by (auto simp add: zfill2_def digit_char_def chr_lit_def chr_range_def directive_m_def directive_d_def)
  next
    case 2
    then have e: "d div 10 = 1" by presburger
    show ?thesis
      using dec by (simp add: zfill2_def e chr_lit_def chr_range_def directive_d_def) (simp add: digit_char_def)
  next
    case 3
    then have e: "d div 10 = 2" by presburger
    show ?thesis
      using dec by (simp add: zfill2_def e chr_lit_def chr_range_def directive_d_def) (simp add: digit_char_def)
  next
    case 4
    then have "d div 10 = 3" "d mod 10 = d - 30" using assms by presburger+
    then show ?thesis
      using assms 4 by (simp add: zfill2_def digit_char_def chr_lit_def chr_range_def directive_m_def directive_d_def)
  qed
qed

lemma pattern_iso: "pattern False ''%Y-%m-%d'' = Some iso_regex"
  by (simp add: iso_regex_def directive_def atom_of_char_def is_letter_def is_space_char_def)

lemma branches_dash: "branches U (Atom (Lit 45)) (45 # rest, g) = [(rest, g)]"
  by simp

lemma re_match_iso:
  assumes U: "ascii_digits U" and y: "1 \<le> y" "y \<le> 9999" and m: "1 \<le> m" "m \<le> 12"
      and d: "1 \<le> d" "d \<le> 31"
  shows "re_match U iso_regex (zfill4 y @ [45] @ zfill2 m @ [45] @ zfill2 d) =
           Some ([], [(''d'', zfill2 d), (''m'', zfill2 m), (''Y'', zfill4 y)])"
proof -
  have y0: "0 \<le> y" using y by simp
  obtain z1 where b5: "branches U
      (Seq directive_d
      Eps) (zfill2 d @ [], [(''m'', zfill2 m), (''Y'', zfill4 y)]) =
      ([], [(''d'', zfill2 d), (''m'', zfill2 m), (''Y'', zfill4 y)]) # z1"
    using branches_Seq_hd [OF _ branches.simps(1)] branches_d [OF U d] by blast
  obtain z2 where b4: "branches U (Seq (Atom (Lit 45))
      (Seq directive_d
      Eps)) ([45] @ zfill2 d @ [], [(''m'', zfill2 m), (''Y'', zfill4 y)]) =
      ([], [(''d'', zfill2 d), (''m'', zfill2 m), (''Y'', zfill4 y)]) # z2"
    using branches_Seq_hd [OF _ b5] branches_dash by (metis append_Cons append_Nil)
  obtain z3 where b3: "branches U
    (Seq directive_m
    (Seq (Atom (Lit 45))
    (Seq directive_d
      Eps))) (zfill2 m @ [45] @ zfill2 d @ [], [(''Y'', zfill4 y)]) =
      ([], [(''d'', zfill2 d), (''m'', zfill2 m), (''Y'', zfill4 y)]) # z3"
    using branches_Seq_hd [OF _ b4] branches_m [OF m] by blast
  obtain z4 where b2: "branches U (Seq (Atom (Lit 45))
    (Seq directive_m
    (Seq (Atom (Lit 45))
    (Seq directive_d
      Eps)))) ([45] @ zfill2 m @ [45] @ zfill2 d @ [], [(''Y'', zfill4 y)]) =
      ([], [(''d'', zfill2 d), (''m'', zfill2 m), (''Y'', zfill4 y)]) # z4"
    using branches_Seq_hd [OF _ b3] branches_dash by (metis append_Cons append_Nil)
  obtain z5 where b1: "branches U iso_regex (zfill4 y @ [45] @ zfill2 m @ [45] @ zfill2 d @ [], []) =
      ([], [(''d'', zfill2 d), (''m'', zfill2 m), (''Y'', zfill4 y)]) # z5"
    unfolding iso_regex_def
    using branches_Seq_hd [OF branches_Y [OF U y0 y(2)] b2] by blast
  show ?thesis
    using b1 by (simp add: re_match_def)
qed

lemma int_horner2:
  fixes a b :: int
  shows "0 \<le> a \<Longrightarrow> 0 \<le> b \<Longrightarrow> int (10 * nat a + nat b) = 10 * a + b"
  by simp

lemma int_horner4:
  fixes a b c d :: int
  shows "0 \<le> a \<Longrightarrow> 0 \<le> b \<Longrightarrow> 0 \<le> c \<Longrightarrow> 0 \<le> d \<Longrightarrow>
         int (10 * (10 * (10 * nat a + nat b) + nat c) + nat d) = 10 * (10 * (10 * a + b) + c) + d"
  by simp

lemma horner4:
  fixes n :: int
  shows "n = 10 * q1 + r1 \<Longrightarrow> q1 = 10 * q2 + r2 \<Longrightarrow> q2 = 10 * q3 + r3 \<Longrightarrow>
         10 * (10 * (10 * q3 + r3) + r2) + r1 = n"
  by simp

lemma div_10_bounds:
  fixes n :: int
  assumes "0 \<le> n" "n \<le> 99"
  shows "0 \<le> n div 10" "n div 10 < 10"
proof -
  have e: "n = 10 * (n div 10) + n mod 10" by simp
  have m: "0 \<le> n mod 10" "n mod 10 < 10" by simp_all
  show "0 \<le> n div 10" using assms(1) by (simp add: pos_imp_zdiv_nonneg_iff)
  show "n div 10 < 10" using e m assms(2) by linarith
qed

lemma zfill2_value:
  fixes n :: int
  assumes "0 \<le> n" "n \<le> 99"
  shows "10 * nat (n div 10) + nat (n mod 10) = nat n"
proof -
  have nn: "0 \<le> n div 10" "0 \<le> n mod 10" using div_10_bounds [OF assms] by simp_all
  have e: "10 * (n div 10) + n mod 10 = n" by simp
  have "int (10 * nat (n div 10) + nat (n mod 10)) = int (nat n)"
    using assms(1) by (simp only: int_horner2 [OF nn] e int_nat_eq) simp
  then show ?thesis by (simp only: of_nat_eq_iff)
qed

lemma div_1000_bounds:
  fixes n :: int
  assumes "0 \<le> n" "n \<le> 9999"
  shows "0 \<le> n div 1000" "n div 1000 < 10"
proof -
  have e: "n = 1000 * (n div 1000) + n mod 1000" by simp
  have m: "0 \<le> n mod 1000" "n mod 1000 < 1000" by simp_all
  show "0 \<le> n div 1000" using assms(1) by (simp add: pos_imp_zdiv_nonneg_iff)
  show "n div 1000 < 10" using e m assms(2) by linarith
qed

lemma zfill4_digits:
  fixes n :: int
  shows "10 * (10 * (10 * (n div 1000) + n div 100 mod 10) + n div 10 mod 10) + n mod 10 = n"
proof -
  have a: "n = 10 * (n div 10) + n mod 10" by simp
  have d100: "n div 10 div 10 = n div 100" by (simp add: zdiv_zmult2_eq)
  have d1000: "n div 100 div 10 = n div 1000" by (simp add: zdiv_zmult2_eq)
  have "n div 10 = 10 * (n div 10 div 10) + n div 10 mod 10" by simp
  then have b: "n div 10 = 10 * (n div 100) + n div 10 mod 10" by (simp only: d100)
  have "n div 100 = 10 * (n div 100 div 10) + n div 100 mod 10" by simp
  then have c: "n div 100 = 10 * (n div 1000) + n div 100 mod 10" by (simp only: d1000)
  show ?thesis by (rule horner4 [OF a b c])
qed

lemma zfill4_value:
  fixes n :: int
  assumes "0 \<le> n" "n \<le> 9999"
  shows "10 * (10 * (10 * nat (n div 1000) + nat (n div 100 mod 10)) + nat (n div 10 mod 10)) +
         nat (n mod 10) = nat n"
proof -
  have n1: "0 \<le> n div 1000" using div_1000_bounds [OF assms] by simp
  have n2: "0 \<le> n div 100 mod 10" by simp
  have n3: "0 \<le> n div 10 mod 10" by simp
  have n4: "0 \<le> n mod 10" by simp
  have "int (10 * (10 * (10 * nat (n div 1000) + nat (n div 100 mod 10)) + nat (n div 10 mod 10)) +
         nat (n mod 10)) = int (nat n)"
    using assms(1) by (simp only: int_horner4 [OF n1 n2 n3 n4] zfill4_digits int_nat_eq) simp
  then show ?thesis by (simp only: of_nat_eq_iff)
qed

lemma digit_char_not_int_space: "0 \<le> k \<Longrightarrow> k < 10 \<Longrightarrow> \<not> int_space U (digit_char k)"
proof -
  assume "0 \<le> k" "k < 10"
  then have "48 + nat k < 127" "\<not> (48 + nat k \<le> 13)" "48 + nat k \<noteq> 32" by simp_all
  then show ?thesis by (simp only: int_space_def digit_char_def) simp
qed

lemma py_int_zfill2:
  assumes U: "ascii_digits U" and n: "0 \<le> n" "n \<le> 99"
  shows "py_int U (zfill2 n) = Some n"
proof -
  have r: "0 \<le> n div 10" "n div 10 < 10" "0 \<le> n mod 10" "n mod 10 < 10"
    using div_10_bounds [OF n] by simp_all
  have s: "int_strip U (zfill2 n) = zfill2 n"
    by (rule int_strip_plain) (simp_all add: zfill2_def digit_char_not_int_space r)
  have p: "parse_digits U (zfill2 n) 0 False = Some (nat n)"
    using zfill2_value [OF n] by (simp add: zfill2_def digit_char_decimal [OF U] r)
  have f: "length (filter (isdecimal U) (zfill2 n)) \<le> max_str_digits"
    using length_filter_le [of "isdecimal U" "zfill2 n"]
    by (simp add: zfill2_def max_str_digits_def del: length_filter_le)
  have d: "int_digits U (zfill2 n) = Some (nat n)"
    using f by (simp add: int_digits_def p)
  have "hd (zfill2 n) \<noteq> 43" "hd (zfill2 n) \<noteq> 45" by (simp_all add: zfill2_def digit_char_def)
  moreover obtain c cs where c: "zfill2 n = c # cs" by (simp add: zfill2_def)
  ultimately show ?thesis
    using d n(1) s by (simp add: py_int_def)
qed

lemma py_int_zfill4:
  assumes U: "ascii_digits U" and n: "0 \<le> n" "n \<le> 9999"
  shows "py_int U (zfill4 n) = Some n"
proof -
  have r: "0 \<le> n div 1000" "n div 1000 < 10" "0 \<le> n div 100 mod 10" "n div 100 mod 10 < 10"
      "0 \<le> n div 10 mod 10" "n div 10 mod 10 < 10" "0 \<le> n mod 10" "n mod 10 < 10"
    using div_1000_bounds [OF n] by simp_all
  have s: "int_strip U (zfill4 n) = zfill4 n"
    by (rule int_strip_plain) (simp_all add: zfill4_def digit_char_not_int_space r)
  have p: "parse_digits U (zfill4 n) 0 False = Some (nat n)"
    using zfill4_value [OF n] by (simp add: zfill4_def digit_char_decimal [OF U] r)
  have f: "length (filter (isdecimal U) (zfill4 n)) \<le> max_str_digits"
    using length_filter_le [of "isdecimal U" "zfill4 n"]
    by (simp add: zfill4_def max_str_digits_def del: length_filter_le)
  have d: "int_digits U (zfill4 n) = Some (nat n)"
    using f by (simp add: int_digits_def p)
  have "hd (zfill4 n) \<noteq> 43" "hd (zfill4 n) \<noteq> 45" by (simp_all add: zfill4_def digit_char_def)
  moreover obtain c cs where c: "zfill4 n = c # cs" by (simp add: zfill4_def)
  ultimately show ?thesis
    using d n(1) s by (simp add: py_int_def)
qed

lemma days_in_month_le: "days_in_month y m \<le> 31"
  by (simp add: days_in_month_def)

lemma strptime_isoformat:
  assumes U: "ascii_digits U" and v: "valid_date d"
  shows "strptime U (isoformat d) ''%Y-%m-%d'' = Some d"
proof -
  have y: "1 \<le> year d" "year d \<le> 9999" and m: "1 \<le> month d" "month d \<le> 12"
    and dd: "1 \<le> day d" "day d \<le> 31"
    using v days_in_month_le [of "year d" "month d"] by (auto simp: valid_date_def)
  have rm: "re_match U iso_regex (isoformat d) =
      Some ([], [(''d'', zfill2 (day d)), (''m'', zfill2 (month d)), (''Y'', zfill4 (year d))])"
    unfolding isoformat_def by (rule re_match_iso [OF U y m dd])
  have iy: "py_int U (zfill4 (year d)) = Some (year d)"
    using y by (intro py_int_zfill4 [OF U]) simp_all
  have im: "py_int U (zfill2 (month d)) = Some (month d)"
    using m by (intro py_int_zfill2 [OF U]) simp_all
  have id: "py_int U (zfill2 (day d)) = Some (day d)"
    using dd by (intro py_int_zfill2 [OF U]) simp_all
  have ag: "apply_groups U
      (rev [(''d'', zfill2 (day d)), (''m'', zfill2 (month d)), (''Y'', zfill4 (year d))])
      \<lparr>p_year = None, p_month = 1, p_day = 1\<rparr> =
      Some \<lparr>p_year = Some (year d), p_month = month d, p_day = day d\<rparr>"
    by (simp add: apply_group_def iy im id)
  have e: "\<lparr>year = year d, month = month d, day = day d\<rparr> = d" by simp
  have "strptime U (isoformat d) ''%Y-%m-%d'' =
      (case apply_groups U
          (rev [(''d'', zfill2 (day d)), (''m'', zfill2 (month d)), (''Y'', zfill4 (year d))])
          \<lparr>p_year = None, p_month = 1, p_day = 1\<rparr> of
         None \<Rightarrow> None
       | Some p \<Rightarrow>
           let d' = \<lparr>year = (case p_year p of None \<Rightarrow> 1900 | Some y \<Rightarrow> y),
                     month = p_month p, day = p_day p\<rparr>
           in if valid_date d' then Some d' else None)"
    by (simp only: strptime_def pattern_iso rm option.case prod.case) simp
  then show ?thesis
    using v by (simp only: ag option.case) (simp add: e)
qed

lemma strip_isoformat:
  assumes U: "ascii_digits U" and v: "valid_date d"
  shows "strip U (isoformat d) = isoformat d"
proof -
  have "0 \<le> year d" "year d \<le> 9999" using v by (auto simp: valid_date_def)
  then have r: "0 \<le> year d div 1000" "year d div 1000 < 10" "0 \<le> day d mod 10" "day d mod 10 < 10"
    using div_1000_bounds [of "year d"] by simp_all
  show ?thesis
    by (rule strip_plain) (simp_all add: isoformat_def zfill4_def zfill2_def digit_char_not_space [OF U] r)
qed

lemma ascii_digits_latin1: "ascii_digits latin1"
  by (auto simp: ascii_digits_def latin1_def latin1_decimal_def latin1_isspace_def)

lemma strptime_slash:
  "strptime latin1 (ustr ''10/30/2025'') ''%Y-%m-%d'' = None"
  "strptime latin1 (ustr ''10/30/2025'') ''%m/%d/%Y'' = Some \<lparr>year = 2025, month = 10, day = 30\<rparr>"
  by (simp_all add: strptime_def directive_def directive_d_def directive_m_def directive_Y_def
      atom_of_char_def is_letter_def chr_lit_def chr_range_def is_space_char_def re_match_def
      ustr_def latin1_def latin1_isspace_def latin1_decimal_def isdecimal_def
      apply_group_def py_int_def int_strip_def int_space_def int_digits_def max_str_digits_def
      valid_date_def days_in_month_def)

text \<open>
  Claim C3. A format matches a string when \<open>strptime\<close> returns a date for it. When
  the format at index \<open>k\<close> of the list matches the stripped input and none before it
  does, \<open>parse_invoice_date\<close> returns the date of that format; an input that some
  format matches has such a first format. For every valid date \<open>d\<close>,
  \<open>parse_invoice_date(d.isoformat())\<close> is \<open>d\<close>, given that the characters \<open>0\<close> to
  \<open>9\<close> are decimal digits of their values and not whitespace in the database.
\<close>

theorem parse_invoice_date_first_format:
  "(\<forall>k d. k < length POSSIBLE_FORMATS \<and>
           strptime U (strip U text) (POSSIBLE_FORMATS ! k) = Some d \<and>
           (\<forall>j<k. strptime U (strip U text) (POSSIBLE_FORMATS ! j) = None)
       \<longrightarrow> parse_invoice_date U text = Inr d) \<and>
   ((\<exists>fmt\<in>set POSSIBLE_FORMATS. strptime U (strip U text) fmt \<noteq> None) \<longrightarrow>
      (\<exists>k d. k < length POSSIBLE_FORMATS \<and>
             strptime U (strip U text) (POSSIBLE_FORMATS ! k) = Some d \<and>
             (\<forall>j<k. strptime U (strip U text) (POSSIBLE_FORMATS ! j) = None) \<and>
             parse_invoice_date U text = Inr d)) \<and>
   (\<forall>d. ascii_digits U \<and> valid_date d \<longrightarrow> parse_invoice_date U (isoformat d) = Inr d)"
proof (intro conjI allI impI)
  fix k d
  assume "k < length POSSIBLE_FORMATS \<and>
           strptime U (strip U text) (POSSIBLE_FORMATS ! k) = Some d \<and>
           (\<forall>j<k. strptime U (strip U text) (POSSIBLE_FORMATS ! j) = None)"
  then show "parse_invoice_date U text = Inr d"
    unfolding parse_invoice_date_def Let_def by (intro try_formats_first [of k]) simp_all
next
  assume "\<exists>fmt\<in>set POSSIBLE_FORMATS. strptime U (strip U text) fmt \<noteq> None"
  then show "\<exists>k d. k < length POSSIBLE_FORMATS \<and>
             strptime U (strip U text) (POSSIBLE_FORMATS ! k) = Some d \<and>
             (\<forall>j<k. strptime U (strip U text) (POSSIBLE_FORMATS ! j) = None) \<and>
             parse_invoice_date U text = Inr d"
    unfolding parse_invoice_date_def Let_def by (rule try_formats_first_ex)
next
  fix d
  assume a: "ascii_digits U \<and> valid_date d"
  then have "strptime U (strip U (isoformat d)) ''%Y-%m-%d'' = Some d"
    by (simp add: strip_isoformat strptime_isoformat)
  then show "parse_invoice_date U (isoformat d) = Inr d"
    by (simp add: parse_invoice_date_def POSSIBLE_FORMATS_def)
qed

theorem parse_invoice_date_first_format_witness:
  "strptime latin1 (strip latin1 (ustr '' 10/30/2025'')) (POSSIBLE_FORMATS ! 0) = None \<and>
   strptime latin1 (strip latin1 (ustr '' 10/30/2025'')) (POSSIBLE_FORMATS ! 1) =
     Some \<lparr>year = 2025, month = 10, day = 30\<rparr> \<and>
   parse_invoice_date latin1 (ustr '' 10/30/2025'') = Inr \<lparr>year = 2025, month = 10, day = 30\<rparr> \<and>
   ascii_digits latin1 \<and> valid_date \<lparr>year = 2024, month = 2, day = 29\<rparr> \<and>
   isoformat \<lparr>year = 2024, month = 2, day = 29\<rparr> = ustr ''2024-02-29'' \<and>
   parse_invoice_date latin1 (ustr ''2024-02-29'') = Inr \<lparr>year = 2024, month = 2, day = 29\<rparr>"
proof -
  let ?t = "ustr '' 10/30/2025''"
  let ?d = "\<lparr>year = 2025, month = 10, day = 30\<rparr>"
  let ?e = "\<lparr>year = 2024, month = 2, day = 29\<rparr>"
  have s: "strip latin1 ?t = ustr ''10/30/2025''"
    by (simp add: strip_def ustr_def latin1_def latin1_isspace_def)
  have f0: "strptime latin1 (strip latin1 ?t) (POSSIBLE_FORMATS ! 0) = None"
    by (simp add: s POSSIBLE_FORMATS_def strptime_slash)
  have f1: "strptime latin1 (strip latin1 ?t) (POSSIBLE_FORMATS ! 1) = Some ?d"
    by (simp add: s POSSIBLE_FORMATS_def strptime_slash)
  have k: "1 < length POSSIBLE_FORMATS" by (simp add: POSSIBLE_FORMATS_def)
  have b: "\<forall>j<1. strptime latin1 (strip latin1 ?t) (POSSIBLE_FORMATS ! j) = None"
    using f0 by simp
  have v: "valid_date ?e" by (simp add: valid_date_def days_in_month_def is_leap_def)
  have i: "isoformat ?e = ustr ''2024-02-29''"
    by (simp add: isoformat_def zfill4_def zfill2_def digit_char_def ustr_def)
  note t = parse_invoice_date_first_format [of latin1 ?t]
  have p1: "parse_invoice_date latin1 ?t = Inr ?d"
    using t [THEN conjunct1] k f1 b by blast
  have "parse_invoice_date latin1 (isoformat ?e) = Inr ?e"
    using t [THEN conjunct2, THEN conjunct2] ascii_digits_latin1 v by blast
  then have p2: "parse_invoice_date latin1 (ustr ''2024-02-29'') = Inr ?e" by (simp only: i)
  show ?thesis using f0 f1 p1 ascii_digits_latin1 v i p2 by (intro conjI)
qed

lemma parse_invoice_date_raises:
  "(parse_invoice_date U text = Inl AssertionError \<longleftrightarrow>
      (\<forall>fmt\<in>set POSSIBLE_FORMATS. strptime U (strip U text) fmt = None)) \<and>
   ((\<exists>d. parse_invoice_date U text = Inr d) \<longleftrightarrow>
      (\<exists>fmt\<in>set POSSIBLE_FORMATS. strptime U (strip U text) fmt \<noteq> None)) \<and>
   (\<forall>e. parse_invoice_date U text = Inl e \<longrightarrow> e = AssertionError)"
  unfolding parse_invoice_date_def Let_def
  using try_formats_Inl [of U "strip U text" POSSIBLE_FORMATS]
    try_formats_Inr [of U "strip U text" POSSIBLE_FORMATS]
  by blast

lemma try_formats_start_end_eq:
  "try_formats_start_end U t fmts = try_formats U t fmts"
  by (induction fmts) (simp_all split: option.splits)

lemma parse_invoice_date_start_end_eq:
  "parse_invoice_date_start_end U text = parse_invoice_date U text"
  by (simp add: parse_invoice_date_start_end_def parse_invoice_date_def
      POTENTIAL_DATE_FORMATS_def POSSIBLE_FORMATS_def try_formats_start_end_eq)

text \<open>
  Claim C4, for the copies of \<open>test_rsp_invoice_date_field.py\<close> and
  \<open>test_rsp_invoice_date_start_end_fields.py\<close>. \<open>parse_invoice_date\<close> raises
  \<open>AssertionError\<close> exactly when none of the six formats matches the stripped input, it
  returns a date exactly when some format matches, and it raises no other exception.
\<close>

theorem parse_invoice_date_assertion_error:
  "\<forall>parse\<in>{parse_invoice_date, parse_invoice_date_start_end}.
   (parse U text = Inl AssertionError \<longleftrightarrow>
      (\<forall>fmt\<in>set POSSIBLE_FORMATS. strptime U (strip U text) fmt = None)) \<and>
   ((\<exists>d. parse U text = Inr d) \<longleftrightarrow>
      (\<exists>fmt\<in>set POSSIBLE_FORMATS. strptime U (strip U text) fmt \<noteq> None)) \<and>
   (\<forall>e. parse U text = Inl e \<longrightarrow> e = AssertionError)"
proof (intro ballI)
  fix parse
  have e: "parse_invoice_date_start_end = parse_invoice_date"
    by (intro ext) (rule parse_invoice_date_start_end_eq)
  assume "parse \<in> {parse_invoice_date, parse_invoice_date_start_end}"
  then have b: "parse = parse_invoice_date" using e by blast
  show "(parse U text = Inl AssertionError \<longleftrightarrow>
      (\<forall>fmt\<in>set POSSIBLE_FORMATS. strptime U (strip U text) fmt = None)) \<and>
   ((\<exists>d. parse U text = Inr d) \<longleftrightarrow>
      (\<exists>fmt\<in>set POSSIBLE_FORMATS. strptime U (strip U text) fmt \<noteq> None)) \<and>
   (\<forall>e. parse U text = Inl e \<longrightarrow> e = AssertionError)"
    unfolding b by (rule parse_invoice_date_raises)
qed

theorem parse_invoice_date_assertion_error_witness:
  "parse_invoice_date latin1 (ustr ''tomorrow'') = Inl AssertionError \<and>
   parse_invoice_date_start_end latin1 (ustr ''tomorrow'') = Inl AssertionError \<and>
   strptime latin1 (strip latin1 (ustr ''tomorrow'')) ''%B %d, %Y'' = None \<and>
   strptime latin1 (strip latin1 (ustr ''Oct. 30, 2025'')) ''%b. %d, %Y'' \<noteq> None \<and>
   parse_invoice_date latin1 (ustr ''Oct. 30, 2025'') = Inr \<lparr>year = 2025, month = 10, day = 30\<rparr>"
proof -
  note t = parse_invoice_date_assertion_error [of latin1 "ustr ''tomorrow''"]
  have m: "''%B %d, %Y'' \<in> set POSSIBLE_FORMATS" by (simp add: POSSIBLE_FORMATS_def)
  have a: "\<forall>fmt\<in>set POSSIBLE_FORMATS. strptime latin1 (strip latin1 (ustr ''tomorrow'')) fmt = None"
    using t eval_tomorrow by blast
  have n: "strptime latin1 (strip latin1 (ustr ''tomorrow'')) ''%B %d, %Y'' = None"
    using a m by blast
  have se: "parse_invoice_date_start_end latin1 (ustr ''tomorrow'') = Inl AssertionError"
    using t a by blast
  have "strptime latin1 (strip latin1 (ustr ''Oct. 30, 2025'')) ''%b. %d, %Y'' =
      Some \<lparr>year = 2025, month = 10, day = 30\<rparr>"
    by (simp add: strptime_def directive_def directive_d_def directive_m_def
      directive_y_def directive_Y_def seqToRE_def f_month_def a_month_def literal_ci_def
      atom_of_char_def is_letter_def chr_lit_def chr_range_def is_space_char_def re_match_def
      ustr_def strip_def latin1_def latin1_isspace_def latin1_decimal_def latin1_ci_eq_def
      isdecimal_def apply_group_def py_int_def int_strip_def int_space_def int_digits_def
      max_str_digits_def str_lower_def latin1_lower_def valid_date_def days_in_month_def)
  then have o: "strptime latin1 (strip latin1 (ustr ''Oct. 30, 2025'')) ''%b. %d, %Y'' \<noteq> None"
    by simp
  show ?thesis using eval_tomorrow se n o eval_oct by (intro conjI)
qed

section \<open>The copies of the helpers\<close>

text \<open>
  Claim C10. The two definitions of \<open>parse_invoice_date\<close> return the same date or
  raise the same exception on every input, and the three definitions of
  \<open>build_alternating_case_prefix\<close> return the same string for every \<open>base\<close> and
  length.
\<close>

theorem duplicated_helpers_equal:
  "parse_invoice_date_start_end U text = parse_invoice_date U text \<and>
   build_alternating_case_prefix_manufacturer U base n = build_alternating_case_prefix U base n \<and>
   build_alternating_case_prefix_source_id U base n = build_alternating_case_prefix U base n"
  using parse_invoice_date_start_end_eq build_manufacturer_eq build_source_id_eq by (intro conjI)

section \<open>The rounds of test_dashboard_market_actor_check\<close>

lemma strip_names:
  "strip latin1 (ustr ''Acme'') = ustr ''Acme''"
  "strip latin1 (ustr ''Bolt'') = ustr ''Bolt''"
  "strip latin1 (ustr ''All'') = ustr ''All''"
  by (simp_all add: strip_def ustr_def latin1_def latin1_isspace_def)

lemma first_round_not_stable:
  "ma_round U ops (p, {}, 0) \<noteq> Break st \<and> ma_round U ops (p, {}, 0) \<noteq> Next st"
  by (simp add: ma_round_def Let_def stable_rounds_to_stop_def)

lemma one_round: "ma_rounds U ops (Suc n) (p, {}, 0) = ma_rounds U ops (Suc 0) (p, {}, 0)"
  using first_round_not_stable [of U ops p]
  by (cases "ma_round U ops (p, {}, 0)") auto

text \<open>
  Claim C8. The comparison with the Recent Sales options and the \<open>return\<close> stand inside
  the loop body, so the first round always ends the test (\<open>one_round\<close>): the names are
  read once, \<open>stable_rounds\<close> never reaches \<open>stable_rounds_to_stop\<close>, and no second
  round runs. On \<open>lazy_dashboard\<close> the test fails although the card names shown after
  one scroll are the options of the dropdown without \<open>All\<close>.
\<close>

theorem market_actor_check_first_round_only:
  "test_dashboard_market_actor_check latin1 lazy_dashboard 0 = Inl AssertionError \<and>
   set (card_title_texts lazy_dashboard (wheel_and_wait lazy_dashboard 0)) =
     set (filter (\<lambda>opt. opt \<noteq> ustr ''All'') (market_actor_options lazy_dashboard 0))"
proof -
  have e: "endswith (ustr ''https://host/dashboard/'') (ustr ''/dashboard/'')"
     "endswith (ustr ''https://host/salesdata/'') (ustr ''/salesdata/'')"
    by (simp_all add: endswith_def ustr_def suffix_to_prefix)
  have n: "ustr ''Acme'' \<noteq> []" "ustr ''Bolt'' \<noteq> []" "ustr ''All'' \<noteq> []" "ustr ''Acme'' \<noteq> ustr ''All''"
     "ustr ''Bolt'' \<noteq> ustr ''All''" "ustr ''Acme'' \<noteq> ustr ''Bolt''"
    by (simp_all add: ustr_def)
  have r: "ma_round latin1 lazy_dashboard (0, {}, 0) = Raise AssertionError"
    using n by (auto simp add: ma_round_def lazy_dashboard_def strip_names e stable_rounds_to_stop_def)
  have m: "max_rounds = Suc 9" by (simp add: max_rounds_def)
  have u: "current_url lazy_dashboard 0 = ustr ''https://host/dashboard/''"
    by (simp add: lazy_dashboard_def)
  have mr: "ma_rounds latin1 lazy_dashboard max_rounds (0, {}, 0) = Inl AssertionError"
    unfolding m by (simp only: ma_rounds.simps r outcome.case)
  have "test_dashboard_market_actor_check latin1 lazy_dashboard 0 = Inl AssertionError"
    by (simp add: test_dashboard_market_actor_check_def mr u e)
  moreover have "set (card_title_texts lazy_dashboard (wheel_and_wait lazy_dashboard 0)) =
     set (filter (\<lambda>opt. opt \<noteq> ustr ''All'') (market_actor_options lazy_dashboard 0))"
    using n by (simp add: lazy_dashboard_def)
  ultimately show ?thesis by simp
qed

end
